theory Spec2Isabelle
  imports Complex_Main
begin

section \<open>Values shared by the scheduler and the store\<close>

text \<open>
  The program throws plain JavaScript \<open>Error\<close> objects that carry a message; a thrown
  error is the left summand of a result.

  Numbers: \<open>interval\<close>, \<open>reps\<close> and \<open>lapses\<close> are whole numbers (\<open>int\<close>); \<open>ease\<close> is
  a fraction, taken here as an exact rational, so that \<open>2.5\<close>, \<open>0.15\<close>, \<open>0.2\<close>, \<open>1.3\<close>
  and \<open>3.5\<close> are \<open>5/2\<close>, \<open>3/20\<close>, \<open>1/5\<close>, \<open>13/10\<close> and \<open>7/2\<close>. A timestamp is the
  number of milliseconds that \<open>Date.getTime\<close> returns.

  A property of a JavaScript object can be absent: such a field is an \<open>option\<close>, with
  \<open>None\<close> for \<open>undefined\<close> (and \<open>null\<close>).
\<close>

datatype error = Error string

type_synonym timestamp = int

text \<open>\<open>x || d\<close> on a number: the default replaces an absent value and the falsy \<open>0\<close>.\<close>

definition or_default :: "'a::zero option \<Rightarrow> 'a \<Rightarrow> 'a" where
  "or_default x d = (case x of None \<Rightarrow> d | Some v \<Rightarrow> if v = 0 then d else v)"

text \<open>\<open>x ?? d\<close>: the default replaces an absent value only.\<close>

definition nullish :: "'a option \<Rightarrow> 'a \<Rightarrow> 'a" where
  "nullish x d = (case x of None \<Rightarrow> d | Some v \<Rightarrow> v)"

text \<open>\<open>Math.round\<close>: the nearest integer, a tie going up.\<close>

definition math_round :: "rat \<Rightarrow> int" where
  "math_round x = \<lfloor>x + 1 / 2\<rfloor>"

section \<open>scheduler.js\<close>

text \<open>
  The scheduling fields of a card. \<open>schedule\<close> copies its argument with
  \<open>{ ...card }\<close> and overwrites six properties, so every other property of the object
  it is given survives: the record is extensible and \<open>schedule\<close> works on any extension.
\<close>

record sched =
  due :: "timestamp option"
  interval :: "int option"
  ease :: "rat option"
  reps :: "int option"
  lapses :: "int option"
  state :: "string option"

definition ms_per_day :: int where
  "ms_per_day = 86400000"

text \<open>
  \<open>due.setDate(due.getDate() + n)\<close> moves the date by \<open>n\<close> calendar days and keeps the
  time of day; with no change of clock offset in between that is \<open>n\<close> times 24 hours.
\<close>

definition add_days :: "timestamp \<Rightarrow> int \<Rightarrow> timestamp" where
  "add_days t n = t + n * ms_per_day"

text \<open>
  The \<open>switch\<close> of \<open>schedule\<close> on the four local variables, in the order of the source's
  assignments: the result is \<open>(interval, ease, reps, lapses)\<close> after the branch.
\<close>

definition grade_switch ::
  "string \<Rightarrow> int \<Rightarrow> rat \<Rightarrow> int \<Rightarrow> int \<Rightarrow> error + (int \<times> rat \<times> int \<times> int)" where
  "grade_switch grade interval0 ease0 reps0 lapses0 =
    (if grade = ''again'' then
       (let lapses1 = lapses0 + 1;
            reps1 = 0;
            ease1 = max (13 / 10) (ease0 - 1 / 5);
            interval1 = 1
        in Inr (interval1, ease1, reps1, lapses1))
     else if grade = ''hard'' then
       (let ease1 = max (13 / 10) (ease0 - 3 / 20);
            interval1 = max 1 (math_round (of_int (max 1 interval0) * (6 / 5)));
            reps1 = reps0 + 1
        in Inr (interval1, ease1, reps1, lapses0))
     else if grade = ''good'' then
       (let interval1 =
              (if reps0 = 0 then 1
               else if reps0 = 1 then 6
               else max 1 (math_round (of_int interval0 * ease0)));
            reps1 = reps0 + 1
        in Inr (interval1, ease0, reps1, lapses0))
     else if grade = ''easy'' then
       (let ease1 = min (7 / 2) (ease0 + 3 / 20);
            interval1 =
              (if reps0 = 0 then 4
               else max 1 (math_round (of_int interval0 * (ease1 + 1 / 5))));
            reps1 = reps0 + 1
        in Inr (interval1, ease1, reps1, lapses0))
     else Inl (Error ''Unknown grade''))"

definition schedule :: "'a sched_scheme \<Rightarrow> string \<Rightarrow> timestamp \<Rightarrow> error + 'a sched_scheme" where
  "schedule card0 grade nowDate =
    (let c = card0;
         interval0 = or_default (interval c) 0;
         ease0 = or_default (ease c) (5 / 2);
         reps0 = or_default (reps c) 0;
         lapses0 = or_default (lapses c) 0
     in case grade_switch grade interval0 ease0 reps0 lapses0 of
          Inl e \<Rightarrow> Inl e
        | Inr (interval1, ease1, reps1, lapses1) \<Rightarrow>
            Inr (c\<lparr>ease := Some ease1,
                   interval := Some interval1,
                   reps := Some reps1,
                   lapses := Some lapses1,
                   due := Some (add_days nowDate interval1),
                   state := Some ''review''\<rparr>))"

text \<open>The card the scheduler's own tests start from (\<open>base\<close> in \<open>schedulerTests\<close>).\<close>

definition base :: "timestamp \<Rightarrow> sched" where
  "base t = \<lparr>due = Some t, interval = Some 0, ease = Some (5 / 2), reps = Some 0,
             lapses = Some 0, state = Some ''new''\<rparr>"

text \<open>
  The Study view grades one card after another: each grade calls \<open>schedule\<close> on the
  card as the previous review left it. A run of reviews is the list of its grades and
  review times; an unknown grade ends it with the error.
\<close>

fun reviews :: "'a sched_scheme \<Rightarrow> (string \<times> timestamp) list \<Rightarrow> error + 'a sched_scheme" where
  "reviews c [] = Inr c"
| "reviews c ((grade, nowDate) # gs) =
     (case schedule c grade nowDate of Inl e \<Rightarrow> Inl e | Inr c' \<Rightarrow> reviews c' gs)"

section \<open>The store (the second part of app.js)\<close>

text \<open>
  The three Dexie tables \<open>decks\<close>, \<open>notes\<close> and \<open>cards\<close> have the schema \<open>++id\<close>: the
  primary key is generated on \<open>add\<close>, one more than the last key the table generated,
  starting at 1, and never used again after a delete. A table is the list of its rows
  in key order (the order of \<open>toArray\<close>), with the next key to generate.

  A reference to another row (\<open>deckId\<close>, \<open>noteId\<close>) is a number or \<open>undefined\<close>:
  \<open>importJSON\<close> stores \<open>deckIdMap.get(...)\<close>, which is \<open>undefined\<close> for an id the
  snapshot's decks do not have.
\<close>

record fields =
  f_front :: "string option"
  f_back :: "string option"

record Deck =
  deck_id :: nat
  deck_name :: "string option"
  deck_createdAt :: timestamp

record Note =
  note_id :: nat
  note_deckId :: "nat option"
  note_fields :: "fields option"
  note_createdAt :: timestamp
  note_updatedAt :: timestamp

record Card = sched +
  card_id :: nat
  card_deckId :: "nat option"
  card_noteId :: "nat option"

record store =
  db_decks :: "Deck list"
  db_notes :: "Note list"
  db_cards :: "Card list"
  next_deck :: nat
  next_note :: nat
  next_card :: nat

definition empty_store :: store where
  "empty_store = \<lparr>db_decks = [], db_notes = [], db_cards = [], next_deck = 1, next_note = 1, next_card = 1\<rparr>"

subsection \<open>Decks\<close>

text \<open>
  \<open>Table.add\<close> on a row without \<open>id\<close>: the table generates the key, stores the row under
  it and resolves with the key. The row is passed with a placeholder id that \<open>add\<close>
  overwrites.
\<close>

definition decks_add :: "Deck \<Rightarrow> store \<Rightarrow> nat \<times> store" where
  "decks_add d s =
    (next_deck s, s\<lparr>db_decks := db_decks s @ [d\<lparr>deck_id := next_deck s\<rparr>],
                     next_deck := next_deck s + 1\<rparr>)"

definition notes_add :: "Note \<Rightarrow> store \<Rightarrow> nat \<times> store" where
  "notes_add n s =
    (next_note s, s\<lparr>db_notes := db_notes s @ [n\<lparr>note_id := next_note s\<rparr>],
                     next_note := next_note s + 1\<rparr>)"

definition cards_add :: "Card \<Rightarrow> store \<Rightarrow> nat \<times> store" where
  "cards_add c s =
    (next_card s, s\<lparr>db_cards := db_cards s @ [c\<lparr>card_id := next_card s\<rparr>],
                     next_card := next_card s + 1\<rparr>)"

definition createDeck :: "timestamp \<Rightarrow> string \<Rightarrow> store \<Rightarrow> nat \<times> store" where
  "createDeck now name s =
    decks_add \<lparr>deck_id = 0, deck_name = Some name, deck_createdAt = now\<rparr> s"

definition getDecks :: "store \<Rightarrow> Deck list" where
  "getDecks s = db_decks s"

text \<open>\<open>Table.update\<close> resolves with the number of rows it changed: 0 for an unknown key.\<close>

definition renameDeck :: "nat \<Rightarrow> string \<Rightarrow> store \<Rightarrow> nat \<times> store" where
  "renameDeck ident name s =
    (length (filter (\<lambda>d. deck_id d = ident) (db_decks s)),
     s\<lparr>db_decks := map (\<lambda>d. if deck_id d = ident then d\<lparr>deck_name := Some name\<rparr> else d) (db_decks s)\<rparr>)"

definition deleteDeck :: "nat \<Rightarrow> store \<Rightarrow> store" where
  "deleteDeck ident s =
    (let s1 = s\<lparr>db_cards := filter (\<lambda>c. card_deckId c \<noteq> Some ident) (db_cards s)\<rparr>;
         s2 = s1\<lparr>db_notes := filter (\<lambda>n. note_deckId n \<noteq> Some ident) (db_notes s1)\<rparr>
     in s2\<lparr>db_decks := filter (\<lambda>d. deck_id d \<noteq> ident) (db_decks s2)\<rparr>)"

subsection \<open>Notes and cards\<close>

definition createNote :: "timestamp \<Rightarrow> nat \<Rightarrow> fields \<Rightarrow> store \<Rightarrow> (nat \<times> nat) \<times> store" where
  "createNote now deckId flds s =
    (let createdAt = now;
         (noteId, s1) = notes_add \<lparr>note_id = 0, note_deckId = Some deckId,
                                   note_fields = Some flds, note_createdAt = createdAt,
                                   note_updatedAt = createdAt\<rparr> s;
         c = \<lparr>due = Some createdAt, interval = Some 0, ease = Some (5 / 2),
              reps = Some 0, lapses = Some 0, state = Some ''new'',
              card_id = 0, card_deckId = Some deckId, card_noteId = Some noteId\<rparr>;
         (cardId, s2) = cards_add c s1
     in ((noteId, cardId), s2))"

definition updateNote :: "timestamp \<Rightarrow> nat \<Rightarrow> fields \<Rightarrow> store \<Rightarrow> store" where
  "updateNote now noteId flds s =
    s\<lparr>db_notes := map (\<lambda>n. if note_id n = noteId
                          then n\<lparr>note_fields := Some flds, note_updatedAt := now\<rparr> else n)
                   (db_notes s)\<rparr>"

definition deleteNote :: "nat \<Rightarrow> store \<Rightarrow> store" where
  "deleteNote noteId s =
    (let s1 = s\<lparr>db_cards := filter (\<lambda>c. card_noteId c \<noteq> Some noteId) (db_cards s)\<rparr>
     in s1\<lparr>db_notes := filter (\<lambda>n. note_id n \<noteq> noteId) (db_notes s1)\<rparr>)"

definition getNotesByDeck :: "nat \<Rightarrow> store \<Rightarrow> Note list" where
  "getNotesByDeck deckId s = rev (filter (\<lambda>n. note_deckId n = Some deckId) (db_notes s))"

subsection \<open>Card queries and updates\<close>

text \<open>
  \<open>new Date(c.due).getTime() <= nowMs\<close>: an absent \<open>due\<close> gives \<open>NaN\<close>, which compares
  false.
\<close>

definition is_due :: "timestamp \<Rightarrow> 'a sched_scheme \<Rightarrow> bool" where
  "is_due nowMs c = (case due c of None \<Rightarrow> False | Some t \<Rightarrow> t \<le> nowMs)"

definition getDueCards :: "timestamp \<Rightarrow> nat \<Rightarrow> nat \<Rightarrow> store \<Rightarrow> Card list" where
  "getDueCards nowMs deckId limit s =
    take limit
      (filter (\<lambda>c. is_due nowMs c \<and> state c \<noteq> Some ''suspended'')
         (filter (\<lambda>c. card_deckId c = Some deckId) (db_cards s)))"

text \<open>
  \<open>getRandomDueCard\<close> draws \<open>Math.floor(Math.random() * due.length)\<close>; the random number
  in \<open>[0, 1)\<close> is the parameter \<open>rnd\<close>.
\<close>

definition getRandomDueCard :: "rat \<Rightarrow> timestamp \<Rightarrow> nat \<Rightarrow> store \<Rightarrow> Card option" where
  "getRandomDueCard rnd nowMs deckId s =
    (let dueCards = getDueCards nowMs deckId 100 s
     in if length dueCards = 0 then None
        else (let k = nat \<lfloor>rnd * of_nat (length dueCards)\<rfloor>
              in if k < length dueCards then Some (dueCards ! k) else None))"

text \<open>
  A patch lists the properties to overwrite: \<open>None\<close> is a key the patch does not have.
\<close>

record patch =
  p_deckId :: "nat option"
  p_noteId :: "nat option"
  p_due :: "timestamp option"
  p_interval :: "int option"
  p_ease :: "rat option"
  p_reps :: "int option"
  p_lapses :: "int option"
  p_state :: "string option"

definition merge_field :: "'a option \<Rightarrow> 'a option \<Rightarrow> 'a option" where
  "merge_field new old = (case new of None \<Rightarrow> old | Some v \<Rightarrow> Some v)"

definition apply_patch :: "patch \<Rightarrow> Card \<Rightarrow> Card" where
  "apply_patch p c =
    c\<lparr>card_deckId := merge_field (p_deckId p) (card_deckId c),
      card_noteId := merge_field (p_noteId p) (card_noteId c),
      due := merge_field (p_due p) (due c),
      interval := merge_field (p_interval p) (interval c),
      ease := merge_field (p_ease p) (ease c),
      reps := merge_field (p_reps p) (reps c),
      lapses := merge_field (p_lapses p) (lapses c),
      state := merge_field (p_state p) (state c)\<rparr>"

definition updateCard :: "nat \<Rightarrow> patch \<Rightarrow> store \<Rightarrow> nat \<times> store" where
  "updateCard cardId p s =
    (length (filter (\<lambda>c. card_id c = cardId) (db_cards s)),
     s\<lparr>db_cards := map (\<lambda>c. if card_id c = cardId then apply_patch p c else c) (db_cards s)\<rparr>)"

subsection \<open>JSON export and import\<close>

text \<open>
  A snapshot is the object \<open>importJSON\<close> receives: any of its keys, and any property of
  an entry, can be absent. \<open>exportJSON\<close> writes every row with all its properties.
\<close>

record snap_meta =
  m_app :: string
  m_version :: nat
  m_exportedAt :: timestamp

record snap_deck =
  sd_id :: "nat option"
  sd_name :: "string option"
  sd_createdAt :: "timestamp option"

record snap_note =
  sn_id :: "nat option"
  sn_deckId :: "nat option"
  sn_fields :: "fields option"
  sn_createdAt :: "timestamp option"
  sn_updatedAt :: "timestamp option"

record snap_card = sched +
  sc_id :: "nat option"
  sc_deckId :: "nat option"
  sc_noteId :: "nat option"

record snapshot =
  snap_info :: "snap_meta option"
  snap_decks :: "snap_deck list option"
  snap_notes :: "snap_note list option"
  snap_cards :: "snap_card list option"

definition deck_json :: "Deck \<Rightarrow> snap_deck" where
  "deck_json d = \<lparr>sd_id = Some (deck_id d), sd_name = deck_name d,
                   sd_createdAt = Some (deck_createdAt d)\<rparr>"

definition note_json :: "Note \<Rightarrow> snap_note" where
  "note_json n = \<lparr>sn_id = Some (note_id n), sn_deckId = note_deckId n,
                   sn_fields = note_fields n, sn_createdAt = Some (note_createdAt n),
                   sn_updatedAt = Some (note_updatedAt n)\<rparr>"

definition card_json :: "Card \<Rightarrow> snap_card" where
  "card_json c = \<lparr>due = due c, interval = interval c, ease = ease c, reps = reps c,
                   lapses = lapses c, state = state c, sc_id = Some (card_id c),
                   sc_deckId = card_deckId c, sc_noteId = card_noteId c\<rparr>"

definition exportJSON :: "timestamp \<Rightarrow> store \<Rightarrow> snapshot" where
  "exportJSON now s =
    \<lparr>snap_info = Some \<lparr>m_app = ''pwa-cards'', m_version = 1, m_exportedAt = now\<rparr>,
     snap_decks = Some (map deck_json (db_decks s)),
     snap_notes = Some (map note_json (db_notes s)),
     snap_cards = Some (map card_json (db_cards s))\<rparr>"

text \<open>\<open>x ? new Date(x) : now()\<close> on a date of the snapshot.\<close>

definition date_or_now :: "timestamp option \<Rightarrow> timestamp \<Rightarrow> timestamp" where
  "date_or_now x now = (case x of None \<Rightarrow> now | Some t \<Rightarrow> t)"

text \<open>
  The three loops of \<open>importJSON\<close>. \<open>deckIdMap\<close> and \<open>noteIdMap\<close> are keyed by the old
  id, which can be \<open>undefined\<close>; \<open>Map.get\<close> of a missing key is \<open>undefined\<close>.
\<close>

fun import_decks ::
  "timestamp \<Rightarrow> snap_deck list \<Rightarrow> store \<Rightarrow> (nat option \<rightharpoonup> nat) \<Rightarrow> store \<times> (nat option \<rightharpoonup> nat)" where
  "import_decks now [] s deckIdMap = (s, deckIdMap)"
| "import_decks now (d # ds) s deckIdMap =
    (let (newId, s') = decks_add \<lparr>deck_id = 0, deck_name = sd_name d,
                                  deck_createdAt = date_or_now (sd_createdAt d) now\<rparr> s
     in import_decks now ds s' (deckIdMap(sd_id d \<mapsto> newId)))"

fun import_notes ::
  "timestamp \<Rightarrow> (nat option \<rightharpoonup> nat) \<Rightarrow> snap_note list \<Rightarrow> store \<Rightarrow> (nat option \<rightharpoonup> nat)
     \<Rightarrow> store \<times> (nat option \<rightharpoonup> nat)" where
  "import_notes now deckIdMap [] s noteIdMap = (s, noteIdMap)"
| "import_notes now deckIdMap (n # ns) s noteIdMap =
    (let (newId, s') = notes_add \<lparr>note_id = 0, note_deckId = deckIdMap (sn_deckId n),
                                  note_fields = sn_fields n,
                                  note_createdAt = date_or_now (sn_createdAt n) now,
                                  note_updatedAt = date_or_now (sn_updatedAt n) now\<rparr> s
     in import_notes now deckIdMap ns s' (noteIdMap(sn_id n \<mapsto> newId)))"

fun import_cards ::
  "timestamp \<Rightarrow> (nat option \<rightharpoonup> nat) \<Rightarrow> (nat option \<rightharpoonup> nat) \<Rightarrow> snap_card list \<Rightarrow> store \<Rightarrow> store" where
  "import_cards now deckIdMap noteIdMap [] s = s"
| "import_cards now deckIdMap noteIdMap (c # cs) s =
    (let (newId, s') = cards_add \<lparr>due = Some (date_or_now (due c) now),
                                  interval = Some (nullish (interval c) 0),
                                  ease = Some (nullish (ease c) (5 / 2)),
                                  reps = Some (nullish (reps c) 0),
                                  lapses = Some (nullish (lapses c) 0),
                                  state = Some (nullish (state c) ''new''),
                                  card_id = 0,
                                  card_deckId = deckIdMap (sc_deckId c),
                                  card_noteId = noteIdMap (sc_noteId c)\<rparr> s
     in import_cards now deckIdMap noteIdMap cs s')"

text \<open>
  A store operation that can throw returns the outcome and the store it leaves: the
  error and the store as it was at the \<open>throw\<close>.
\<close>

definition importJSON :: "timestamp \<Rightarrow> snapshot option \<Rightarrow> store \<Rightarrow> (error + unit) \<times> store" where
  "importJSON now obj s =
    (case obj of
       None \<Rightarrow> (Inl (Error ''Invalid JSON format''), s)
     | Some ob \<Rightarrow>
        (case snap_decks ob of
           None \<Rightarrow> (Inl (Error ''Invalid JSON format''), s)
         | Some ds \<Rightarrow>
            (case snap_notes ob of
               None \<Rightarrow> (Inl (Error ''Invalid JSON format''), s)
             | Some ns \<Rightarrow>
                (case snap_cards ob of
                   None \<Rightarrow> (Inl (Error ''Invalid JSON format''), s)
                 | Some cs \<Rightarrow>
                    (let (s1, deckIdMap) = import_decks now ds s Map.empty;
                         (s2, noteIdMap) = import_notes now deckIdMap ns s1 Map.empty;
                         s3 = import_cards now deckIdMap noteIdMap cs s2
                     in (Inr (), s3))))))"

subsection \<open>CSV export and import\<close>

text \<open>
  A string is the list of its characters; the characters here are the 256 code points
  of Latin-1. The double quote, the comma, the line feed and the carriage return:
\<close>

abbreviation dq :: char where "dq \<equiv> CHR 0x22"
abbreviation comma :: char where "comma \<equiv> CHR 0x2C"
abbreviation lf :: char where "lf \<equiv> CHR 0x0A"
abbreviation cr :: char where "cr \<equiv> CHR 0x0D"

text \<open>\<open>Array.join\<close>.\<close>

fun join :: "string \<Rightarrow> string list \<Rightarrow> string" where
  "join sep [] = []"
| "join sep [x] = x"
| "join sep (x # y # ys) = x @ sep @ join sep (y # ys)"

text \<open>\<open>s.replaceAll('"', '""')\<close> and \<open>s.replaceAll('""', '"')\<close>, left to right.\<close>

fun double_quotes :: "string \<Rightarrow> string" where
  "double_quotes [] = []"
| "double_quotes (c # cs) = (if c = dq then dq # dq # double_quotes cs else c # double_quotes cs)"

fun undouble_quotes :: "string \<Rightarrow> string" where
  "undouble_quotes [] = []"
| "undouble_quotes [c] = [c]"
| "undouble_quotes (c # d # cs) =
     (if c = dq \<and> d = dq then dq # undouble_quotes cs else c # undouble_quotes (d # cs))"

definition escape :: "string option \<Rightarrow> string" where
  "escape v = [dq] @ double_quotes (nullish v []) @ [dq]"

record csv_row =
  deckName :: "string option"
  front :: "string option"
  back_text :: "string option"

definition objectsToCSV :: "csv_row list \<Rightarrow> string" where
  "objectsToCSV rows =
    (let header = [''deckName'', ''front'', ''back''];
         lines0 = [join '','' header];
         lines1 = lines0 @ map (\<lambda>r. join '','' (map escape [deckName r, front r, back_text r])) rows
     in join [lf] lines1)"

text \<open>
  \<open>new Map(decks.map(d => [d.id, d]))\<close>: of two entries with one key the later one
  stays. \<open>get(undefined)\<close> finds nothing, since every row has an id.
\<close>

definition deckById :: "Deck list \<Rightarrow> nat option \<Rightarrow> Deck option" where
  "deckById ds k =
    (case k of None \<Rightarrow> None | Some i \<Rightarrow> map_of (rev (map (\<lambda>d. (deck_id d, d)) ds)) i)"

definition note_row :: "Deck list \<Rightarrow> Note \<Rightarrow> csv_row" where
  "note_row ds n =
    \<lparr>deckName = Some (nullish (Option.bind (deckById ds (note_deckId n)) deck_name) ''Unknown''),
     front = Some (nullish (Option.bind (note_fields n) f_front) []),
     back_text = Some (nullish (Option.bind (note_fields n) f_back) [])\<rparr>"

definition exportCSV :: "store \<Rightarrow> string" where
  "exportCSV s = objectsToCSV (map (note_row (db_decks s)) (db_notes s))"

text \<open>
  \<open>text.split(/\r?\n/)\<close>: a line ends at a line feed, and a carriage return right
  before that line feed belongs to the separator.
\<close>

fun split_lines :: "string \<Rightarrow> string \<Rightarrow> string list" where
  "split_lines cur [] = [cur]"
| "split_lines cur [c] = (if c = lf then [cur, []] else [cur @ [c]])"
| "split_lines cur (c # d # cs) =
     (if c = cr \<and> d = lf then cur # split_lines [] cs
      else if c = lf then cur # split_lines [] (d # cs)
      else split_lines (cur @ [c]) (d # cs))"

text \<open>
  \<open>toLowerCase\<close> on Latin-1: the letters \<open>A\<close> to \<open>Z\<close> and the accented capitals
  \<open>0xC0\<close> to \<open>0xDE\<close> (but the multiplication sign \<open>0xD7\<close>) move up by \<open>0x20\<close>.
\<close>

definition is_upper :: "nat \<Rightarrow> bool" where
  "is_upper n = ((65 \<le> n \<and> n \<le> 90) \<or> (192 \<le> n \<and> n \<le> 222 \<and> n \<noteq> 215))"

definition lower_char :: "char \<Rightarrow> char" where
  "lower_char c = (if is_upper (of_char c) then char_of (of_char c + 32 :: nat) else c)"

definition toLowerCase :: "string \<Rightarrow> string" where
  "toLowerCase s = map lower_char s"

text \<open>
  The test \<open>/^deckName,?front,?back/i\<close>: three literals matched from the start of the
  string without regard to case, an optional comma before the second and the third, and
  anything after. The comma is taken when it is there: no literal starts with a comma,
  so leaving it would not match either.
\<close>

fun match_literal :: "string \<Rightarrow> string \<Rightarrow> string option" where
  "match_literal [] s = Some s"
| "match_literal (p # ps) [] = None"
| "match_literal (p # ps) (c # cs) =
     (if lower_char p = lower_char c then match_literal ps cs else None)"

fun optional_comma :: "string \<Rightarrow> string" where
  "optional_comma [] = []"
| "optional_comma (c # cs) = (if c = comma then cs else c # cs)"

definition header_regex_test :: "string \<Rightarrow> bool" where
  "header_regex_test s =
    (case match_literal ''deckName'' s of
       None \<Rightarrow> False
     | Some r1 \<Rightarrow>
        (case match_literal ''front'' (optional_comma r1) of
           None \<Rightarrow> False
         | Some r2 \<Rightarrow>
            (case match_literal ''back'' (optional_comma r2) of
               None \<Rightarrow> False
             | Some r3 \<Rightarrow> True)))"

text \<open>
  \<open>trim\<close> removes white space and line terminators from both ends: on Latin-1 the
  characters \<open>0x09\<close> to \<open>0x0D\<close>, the space and the no-break space \<open>0xA0\<close>.
\<close>

definition is_space :: "char \<Rightarrow> bool" where
  "is_space c = (let n = (of_char c :: nat) in (9 \<le> n \<and> n \<le> 13) \<or> n = 32 \<or> n = 160)"

definition trim :: "string \<Rightarrow> string" where
  "trim s = rev (dropWhile is_space (rev (dropWhile is_space s)))"

definition parseCell :: "string \<Rightarrow> string" where
  "parseCell s0 =
    (let s = trim s0
     in if s \<noteq> [] \<and> hd s = dq \<and> last s = dq then undouble_quotes (butlast (tl s)) else s)"

text \<open>
  The scan of one line into cells: \<open>cur\<close> is the cell being read, \<open>inQ\<close> says whether
  the scan is inside quotes, \<open>parts\<close> are the finished cells.
\<close>

fun split_cells :: "string \<Rightarrow> bool \<Rightarrow> string list \<Rightarrow> string \<Rightarrow> string list" where
  "split_cells cur inQ parts [] = parts @ [cur]"
| "split_cells cur inQ parts [ch] =
     (if ch = dq then split_cells cur (\<not> inQ) parts []
      else if ch = comma \<and> \<not> inQ then split_cells [] inQ (parts @ [cur]) []
      else split_cells (cur @ [ch]) inQ parts [])"
| "split_cells cur inQ parts (ch # nx # rest) =
     (if ch = dq \<and> nx = dq then split_cells (cur @ [dq]) inQ parts rest
      else if ch = dq then split_cells cur (\<not> inQ) parts (nx # rest)
      else if ch = comma \<and> \<not> inQ then split_cells [] inQ (parts @ [cur]) (nx # rest)
      else split_cells (cur @ [ch]) inQ parts (nx # rest))"

text \<open>An array element that may be missing, then \<open>x || d\<close> on a string.\<close>

definition cell_or :: "string list \<Rightarrow> nat \<Rightarrow> string \<Rightarrow> string" where
  "cell_or cells k d = (if k < length cells \<and> cells ! k \<noteq> [] then cells ! k else d)"

definition getOrCreateDeckId :: "timestamp \<Rightarrow> string \<Rightarrow> store \<Rightarrow> nat \<times> store" where
  "getOrCreateDeckId now name s =
    (case find (\<lambda>d. deck_name d = Some name) (db_decks s) of
       Some existing \<Rightarrow> (deck_id existing, s)
     | None \<Rightarrow> createDeck now name s)"

definition import_line :: "timestamp \<Rightarrow> string \<Rightarrow> store \<Rightarrow> store" where
  "import_line now line s =
    (let parts = split_cells [] False [] line;
         cells = map parseCell parts;
         (deckId, s1) = getOrCreateDeckId now (cell_or cells 0 ''Imported'') s;
         (ids, s2) = createNote now deckId
                       \<lparr>f_front = Some (cell_or cells 1 []), f_back = Some (cell_or cells 2 [])\<rparr> s1
     in s2)"

fun import_lines :: "timestamp \<Rightarrow> string list \<Rightarrow> store \<Rightarrow> store" where
  "import_lines now [] s = s"
| "import_lines now (line # rest) s = import_lines now rest (import_line now line s)"

definition importCSV :: "timestamp \<Rightarrow> string \<Rightarrow> store \<Rightarrow> (error + unit) \<times> store" where
  "importCSV now text s =
    (case filter (\<lambda>l. l \<noteq> []) (split_lines [] text) of
       [] \<Rightarrow> (Inl (Error ''CSV header must be: deckName,front,back''), s)
     | header # rest \<Rightarrow>
         if \<not> header_regex_test (toLowerCase (filter (\<lambda>c. c \<noteq> dq) header))
         then (Inl (Error ''CSV header must be: deckName,front,back''), s)
         else (Inr (), import_lines now rest s))"

subsection \<open>A store to run the queries on\<close>

text \<open>
  One deck and five cards: a suspended one, one due tomorrow, one of another deck, and
  two due cards of deck 1.
\<close>

definition study_store :: store where
  "study_store =
    \<lparr>db_decks = [\<lparr>deck_id = 1, deck_name = Some ''D'', deck_createdAt = 0\<rparr>],
     db_notes = [],
     db_cards =
       [\<lparr>due = Some 3, interval = Some 0, ease = Some (5 / 2), reps = Some 0,
         lapses = Some 0, state = Some ''suspended'', card_id = 1,
         card_deckId = Some 1, card_noteId = Some 1\<rparr>,
        \<lparr>due = Some 11, interval = Some 0, ease = Some (5 / 2), reps = Some 0,
         lapses = Some 0, state = Some ''new'', card_id = 2,
         card_deckId = Some 1, card_noteId = Some 2\<rparr>,
        \<lparr>due = Some 4, interval = Some 0, ease = Some (5 / 2), reps = Some 0,
         lapses = Some 0, state = Some ''new'', card_id = 3,
         card_deckId = Some 2, card_noteId = Some 3\<rparr>,
        \<lparr>due = Some 10, interval = Some 1, ease = Some (5 / 2), reps = Some 1,
         lapses = Some 0, state = Some ''review'', card_id = 4,
         card_deckId = Some 1, card_noteId = Some 4\<rparr>,
        \<lparr>due = Some 2, interval = Some 0, ease = Some (5 / 2), reps = Some 0,
         lapses = Some 0, state = Some ''new'', card_id = 5,
         card_deckId = Some 1, card_noteId = Some 5\<rparr>],
     next_deck = 2, next_note = 6, next_card = 6\<rparr>"

subsection \<open>Sequences of store operations and referential integrity\<close>

text \<open>
  The operations that change the store, as the glue code calls them, and the store
  after a sequence of them.
\<close>

datatype op =
    CreateDeck timestamp string
  | RenameDeck nat string
  | DeleteDeck nat
  | CreateNote timestamp nat fields
  | UpdateNote timestamp nat fields
  | DeleteNote nat
  | UpdateCard nat patch
  | ImportJSON timestamp "snapshot option"
  | ImportCSV timestamp string

fun apply_op :: "op \<Rightarrow> store \<Rightarrow> store" where
  "apply_op (CreateDeck now name) s = snd (createDeck now name s)"
| "apply_op (RenameDeck ident name) s = snd (renameDeck ident name s)"
| "apply_op (DeleteDeck ident) s = deleteDeck ident s"
| "apply_op (CreateNote now deckId flds) s = snd (createNote now deckId flds s)"
| "apply_op (UpdateNote now noteId flds) s = updateNote now noteId flds s"
| "apply_op (DeleteNote noteId) s = deleteNote noteId s"
| "apply_op (UpdateCard cardId p) s = snd (updateCard cardId p s)"
| "apply_op (ImportJSON now obj) s = snd (importJSON now obj s)"
| "apply_op (ImportCSV now text) s = snd (importCSV now text s)"

fun run :: "op list \<Rightarrow> store \<Rightarrow> store" where
  "run [] s = s"
| "run (x # xs) s = run xs (apply_op x s)"

text \<open>
  Referential integrity as the data model states it: every card's \<open>noteId\<close> is the id
  of a note of the store, and every note's \<open>deckId\<close> is the id of a deck of the store.
\<close>

definition refs_ok :: "store \<Rightarrow> bool" where
  "refs_ok s =
    ((\<forall>c \<in> set (db_cards s). \<exists>n \<in> set (db_notes s). card_noteId c = Some (note_id n))
     \<and> (\<forall>n \<in> set (db_notes s). \<exists>d \<in> set (db_decks s). note_deckId n = Some (deck_id d)))"

text \<open>
  What the operations keep besides: the keys of a table are distinct and below the
  next key to generate; a card carries the \<open>deckId\<close> of its note; a note has exactly
  one card.
\<close>

definition ids_ok :: "store \<Rightarrow> bool" where
  "ids_ok s =
    (distinct (map deck_id (db_decks s)) \<and> (\<forall>d \<in> set (db_decks s). deck_id d < next_deck s)
     \<and> distinct (map note_id (db_notes s)) \<and> (\<forall>n \<in> set (db_notes s). note_id n < next_note s)
     \<and> distinct (map card_id (db_cards s)) \<and> (\<forall>c \<in> set (db_cards s). card_id c < next_card s))"

definition owned_ok :: "store \<Rightarrow> bool" where
  "owned_ok s =
    (\<forall>c \<in> set (db_cards s). \<exists>n \<in> set (db_notes s).
        card_noteId c = Some (note_id n) \<and> card_deckId c = note_deckId n)"

definition one_card :: "store \<Rightarrow> bool" where
  "one_card s =
    (\<forall>n \<in> set (db_notes s).
        length (filter (\<lambda>c. card_noteId c = Some (note_id n)) (db_cards s)) = 1)"

definition store_inv :: "store \<Rightarrow> bool" where
  "store_inv s = (ids_ok s \<and> refs_ok s \<and> owned_ok s \<and> one_card s)"

text \<open>
  The calls that can break a reference, and the condition under which each does not:
  \<open>createNote\<close> names a deck of the store; the patch of \<open>updateCard\<close> leaves \<open>deckId\<close>
  and \<open>noteId\<close> alone (the Study view sends the six scheduling fields); the snapshot of
  \<open>importJSON\<close> is rejected, or it is consistent in itself: its notes name decks of the
  snapshot and have distinct ids, and its cards name notes of the snapshot, carry the
  \<open>deckId\<close> of their note, and are one to a note.
\<close>

definition snapshot_consistent :: "snapshot \<Rightarrow> bool" where
  "snapshot_consistent ob =
    (case snap_decks ob of None \<Rightarrow> True | Some ds \<Rightarrow>
     case snap_notes ob of None \<Rightarrow> True | Some ns \<Rightarrow>
     case snap_cards ob of None \<Rightarrow> True | Some cs \<Rightarrow>
       (\<forall>n \<in> set ns. \<exists>d \<in> set ds. sd_id d = sn_deckId n)
       \<and> distinct (map sn_id ns)
       \<and> (\<forall>c \<in> set cs. \<exists>n \<in> set ns. sn_id n = sc_noteId c \<and> sn_deckId n = sc_deckId c)
       \<and> (\<forall>n \<in> set ns. length (filter (\<lambda>c. sc_noteId c = sn_id n) cs) = 1))"

fun op_keeps_refs :: "store \<Rightarrow> op \<Rightarrow> bool" where
  "op_keeps_refs s (CreateNote now deckId flds) = (deckId \<in> deck_id ` set (db_decks s))"
| "op_keeps_refs s (UpdateCard cardId p) = (p_deckId p = None \<and> p_noteId p = None)"
| "op_keeps_refs s (ImportJSON now obj) =
     (case obj of None \<Rightarrow> True | Some ob \<Rightarrow> snapshot_consistent ob)"
| "op_keeps_refs s x = True"

fun all_keep_refs :: "store \<Rightarrow> op list \<Rightarrow> bool" where
  "all_keep_refs s [] = True"
| "all_keep_refs s (x # xs) = (op_keeps_refs s x \<and> all_keep_refs (apply_op x s) xs)"

text \<open>A run for trying the deletes: two decks, two notes in the first and one in the second.\<close>

definition two_decks :: "op list" where
  "two_decks =
    [CreateDeck 0 ''A'', CreateDeck 0 ''B'',
     CreateNote 1 1 \<lparr>f_front = Some ''q1'', f_back = Some ''a1''\<rparr>,
     CreateNote 2 1 \<lparr>f_front = Some ''q2'', f_back = Some ''a2''\<rparr>,
     CreateNote 3 2 \<lparr>f_front = Some ''q3'', f_back = Some ''a3''\<rparr>]"

subsection \<open>The CSV round trip\<close>

text \<open>
  One line of the export: the three cells of a row, each escaped, joined by commas.
\<close>

definition row_line :: "csv_row \<Rightarrow> string" where
  "row_line r = join '','' (map escape [deckName r, front r, back_text r])"

text \<open>
  What the scan of a line leaves in \<open>cur\<close> for an escaped cell: the cell itself, but a
  cell made of double quotes only (the empty cell too) comes out one quote longer,
  because the scan pairs the opening quote with the first quote of the cell.
\<close>

definition raw_cell :: "string \<Rightarrow> string" where
  "raw_cell v = (if \<forall>c \<in> set v. c = dq then v @ [dq] else v)"

text \<open>
  The cells that the import reads back as they were exported: without a line feed,
  without white space at either end, and not both starting and ending with a double
  quote. A row is read back when its three cells are, and its deck name is not empty
  (an empty one becomes \<open>Imported\<close>).
\<close>

definition cell_ok :: "string \<Rightarrow> bool" where
  "cell_ok v = (lf \<notin> set v \<and> trim v = v \<and> \<not> (v \<noteq> [] \<and> hd v = dq \<and> last v = dq))"

definition row_ok :: "csv_row \<Rightarrow> bool" where
  "row_ok r = (cell_ok (nullish (deckName r) []) \<and> nullish (deckName r) [] \<noteq> []
               \<and> cell_ok (nullish (front r) []) \<and> cell_ok (nullish (back_text r) []))"

text \<open>
  A row with every cell present, as \<open>exportCSV\<close> builds it.
\<close>

definition norm_row :: "csv_row \<Rightarrow> csv_row" where
  "norm_row r = \<lparr>deckName = Some (nullish (deckName r) []), front = Some (nullish (front r) []),
                 back_text = Some (nullish (back_text r) [])\<rparr>"

text \<open>The deck keys of a store are distinct and below the next key.\<close>

definition deck_ids_ok :: "store \<Rightarrow> bool" where
  "deck_ids_ok t = (distinct (map deck_id (db_decks t)) \<and> (\<forall>d \<in> set (db_decks t). deck_id d < next_deck t))"

text \<open>
  Two stores to export: one with a comma and a quote in its cells and a reviewed card,
  one with a cell that starts with a space.
\<close>

definition csv_store :: store where
  "csv_store =
    run [CreateDeck 0 ''Deck, one'',
         CreateNote 1 1 \<lparr>f_front = Some ''a,b'', f_back = Some [CHR ''x'', dq, CHR ''y'']\<rparr>,
         CreateNote 2 1 \<lparr>f_front = Some ''q'', f_back = Some []\<rparr>,
         UpdateCard 1 \<lparr>p_deckId = None, p_noteId = None, p_due = Some 99, p_interval = Some 6,
                       p_ease = Some (5 / 2), p_reps = Some 2, p_lapses = Some 0,
                       p_state = Some ''review''\<rparr>]
      empty_store"

definition padded_store :: store where
  "padded_store =
    run [CreateDeck 0 ''D'',
         CreateNote 1 1 \<lparr>f_front = Some '' q'', f_back = Some ''a''\<rparr>]
      empty_store"


section \<open>Properties of the scheduler\<close>

lemma or_default_Some: "v \<noteq> 0 \<Longrightarrow> or_default (Some v) d = v"
  by (simp add: or_default_def)

lemma or_default_None: "or_default None d = d"
  by (simp add: or_default_def)

lemma or_default_zero: "or_default (Some 0) d = d"
  by (simp add: or_default_def)

lemma or_default_int_Some: "or_default (Some (v::int)) 0 = v"
  by (simp add: or_default_def)

text \<open>What \<open>schedule\<close> returns, grade by grade.\<close>

lemma schedule_again:
  "schedule c ''again'' now =
     Inr (c\<lparr>ease := Some (max (13 / 10) (or_default (ease c) (5 / 2) - 1 / 5)),
            interval := Some 1, reps := Some 0,
            lapses := Some (or_default (lapses c) 0 + 1),
            due := Some (add_days now 1), state := Some ''review''\<rparr>)"
  by (simp add: schedule_def grade_switch_def Let_def)

lemma schedule_hard:
  "schedule c ''hard'' now =
     (let i = max 1 (math_round (of_int (max 1 (or_default (interval c) 0)) * (6 / 5))) in
      Inr (c\<lparr>ease := Some (max (13 / 10) (or_default (ease c) (5 / 2) - 3 / 20)),
            interval := Some i, reps := Some (or_default (reps c) 0 + 1),
            lapses := Some (or_default (lapses c) 0),
            due := Some (add_days now i), state := Some ''review''\<rparr>))"
  by (simp add: schedule_def grade_switch_def Let_def)

lemma schedule_good:
  "schedule c ''good'' now =
     (let r = or_default (reps c) 0;
          i = (if r = 0 then 1 else if r = 1 then 6
               else max 1 (math_round (of_int (or_default (interval c) 0)
                                        * or_default (ease c) (5 / 2)))) in
      Inr (c\<lparr>ease := Some (or_default (ease c) (5 / 2)),
            interval := Some i, reps := Some (r + 1),
            lapses := Some (or_default (lapses c) 0),
            due := Some (add_days now i), state := Some ''review''\<rparr>))"
  by (simp add: schedule_def grade_switch_def Let_def)

lemma schedule_easy:
  "schedule c ''easy'' now =
     (let r = or_default (reps c) 0;
          e = min (7 / 2) (or_default (ease c) (5 / 2) + 3 / 20);
          i = (if r = 0 then 4
               else max 1 (math_round (of_int (or_default (interval c) 0) * (e + 1 / 5)))) in
      Inr (c\<lparr>ease := Some e,
            interval := Some i, reps := Some (r + 1),
            lapses := Some (or_default (lapses c) 0),
            due := Some (add_days now i), state := Some ''review''\<rparr>))"
  by (simp add: schedule_def grade_switch_def Let_def)

text \<open>
  C1. The claim: for a card with \<open>reps > 0\<close> graded \<open>easy\<close>, the new interval is
  \<open>max(1, round(interval * (ease + 0.2)))\<close> with the ease the card came in with. The
  \<open>easy\<close> branch assigns \<open>ease\<close> first and reads the variable afterwards, so the
  product is taken with the raised ease. At \<open>interval = 100\<close>, \<open>ease = 2.5\<close>,
  \<open>reps = 3\<close> the code returns \<open>interval = 285 = round(100 * (2.65 + 0.2))\<close>, and
  the claim's formula gives \<open>270 = round(100 * (2.5 + 0.2))\<close>.
\<close>

theorem easy_interval_reads_raised_ease:
  "schedule ((base 0)\<lparr>interval := Some 100, reps := Some 3\<rparr>) ''easy'' 0 =
     Inr \<lparr>due = Some (285 * ms_per_day), interval = Some 285, ease = Some (53 / 20),
          reps = Some 4, lapses = Some 0, state = Some ''review''\<rparr>
   \<and> max 1 (math_round (of_int 100 * (5 / 2 + 1 / 5))) = 270"
  by (simp add: schedule_easy base_def or_default_def math_round_def add_days_def Let_def
      floor_eq_iff)

text \<open>
  C3. For every valid card state (\<open>ease \<ge> 1.3\<close>, \<open>interval \<ge> 0\<close>, \<open>reps \<ge> 0\<close>,
  \<open>lapses \<ge> 0\<close>) and any \<open>now\<close>, \<open>schedule(card, 'again', now)\<close> returns a card with
  \<open>ease \<ge> 1.3\<close>, \<open>interval = 1\<close>, \<open>reps = 0\<close>, \<open>lapses\<close> one more than before and
  \<open>state = 'review'\<close>.
\<close>

theorem again_resets:
  assumes "ease c = Some e" and "13 / 10 \<le> e"
    and "interval c = Some i" and "0 \<le> i"
    and "reps c = Some r" and "0 \<le> r"
    and "lapses c = Some l" and "0 \<le> l"
  shows "\<exists>c' e'. schedule c ''again'' now = Inr c' \<and> ease c' = Some e' \<and> 13 / 10 \<le> e'
           \<and> interval c' = Some 1 \<and> reps c' = Some 0 \<and> lapses c' = Some (l + 1)
           \<and> state c' = Some ''review''"
proof -
  have "or_default (lapses c) 0 = l"
    using assms(7) by (simp add: or_default_int_Some)
  then show ?thesis
    unfolding schedule_again by (simp add: max_def)
qed

theorem again_resets_witness:
  "ease (base 0) = Some (5 / 2) \<and> (13 / 10 :: rat) \<le> 5 / 2
   \<and> (\<exists>c' e'. schedule (base 0) ''again'' 7 = Inr c' \<and> ease c' = Some e' \<and> 13 / 10 \<le> e'
           \<and> interval c' = Some 1 \<and> reps c' = Some 0 \<and> lapses c' = Some (0 + 1)
           \<and> state c' = Some ''review'')"
  using again_resets [of "base 0" "5 / 2" 0 0 0 7] by (simp add: base_def)

lemma schedule_step_bounds:
  assumes e: "ease c = Some e" "13 / 10 \<le> e" "e \<le> 7 / 2"
    and g: "grade \<in> {''again'', ''hard'', ''good'', ''easy''}"
  shows "\<exists>c' e' i'. schedule c grade now = Inr c' \<and> ease c' = Some e' \<and> interval c' = Some i'
           \<and> 13 / 10 \<le> e' \<and> e' \<le> 7 / 2 \<and> 1 \<le> i'
           \<and> (grade = ''hard'' \<or> grade = ''again'' \<longrightarrow> e' \<le> e)"
proof -
  have nz: "e \<noteq> 0" using e(2) by auto
  have od: "or_default (ease c) (5 / 2) = e"
    using e(1) nz by (simp add: or_default_Some)
  consider "grade = ''again''" | "grade = ''hard''" | "grade = ''good''" | "grade = ''easy''"
    using g by auto
  then show ?thesis
  proof cases
    case 1
    show ?thesis unfolding 1 schedule_again od
      using e(2) e(3) by (simp add: max_def)
  next
    case 2
    show ?thesis unfolding 2 schedule_hard od Let_def
      using e(2) e(3) by (simp add: max_def)
  next
    case 3
    show ?thesis unfolding 3 schedule_good od Let_def
      using e(2) e(3) by simp
  next
    case 4
    show ?thesis unfolding 4 schedule_easy od Let_def
      using e(2) e(3) by (simp add: min_def)
  qed
qed

lemma reviews_bounds:
  assumes "ease c = Some e" "13 / 10 \<le> e" "e \<le> 7 / 2"
    and "fst ` set gs \<subseteq> {''again'', ''hard'', ''good'', ''easy''}"
  shows "\<exists>c' e'. reviews c gs = Inr c' \<and> ease c' = Some e'
           \<and> 13 / 10 \<le> e' \<and> e' \<le> 7 / 2
           \<and> (fst ` set gs \<subseteq> {''hard'', ''again''} \<longrightarrow> e' \<le> e)"
  using assms
proof (induction gs arbitrary: c e)
  case Nil
  then show ?case by simp
next
  case (Cons g gs)
  obtain grade now where g: "g = (grade, now)" by (cases g)
  have gr: "grade \<in> {''again'', ''hard'', ''good'', ''easy''}"
    using Cons.prems(4) g by simp
  obtain c1 e1 where c1: "schedule c grade now = Inr c1" "ease c1 = Some e1"
      "13 / 10 \<le> e1" "e1 \<le> 7 / 2" "grade = ''hard'' \<or> grade = ''again'' \<longrightarrow> e1 \<le> e"
    using schedule_step_bounds[OF Cons.prems(1,2,3) gr, of now] by blast
  have rest: "fst ` set gs \<subseteq> {''again'', ''hard'', ''good'', ''easy''}"
    using Cons.prems(4) by simp
  obtain c' e' where c': "reviews c1 gs = Inr c'" "ease c' = Some e'"
      "13 / 10 \<le> e'" "e' \<le> 7 / 2" "fst ` set gs \<subseteq> {''hard'', ''again''} \<longrightarrow> e' \<le> e1"
    using Cons.IH[OF c1(2,3,4) rest] by blast
  have "reviews c (g # gs) = Inr c'"
    using c1(1) c'(1) g by simp
  moreover have "fst ` set (g # gs) \<subseteq> {''hard'', ''again''} \<longrightarrow> e' \<le> e"
    using c1(5) c'(5) g by auto
  ultimately show ?case using c'(2,3,4) by blast
qed

text \<open>
  C5. For every card with \<open>1.3 \<le> ease \<le> 3.5\<close> and every grade among \<open>again\<close>,
  \<open>hard\<close>, \<open>good\<close>, \<open>easy\<close>, the card that \<open>schedule\<close> returns has
  \<open>1.3 \<le> ease \<le> 3.5\<close> and \<open>interval \<ge> 1\<close>, and under \<open>hard\<close> and \<open>again\<close> its
  ease is at most the ease it came in with. The same bounds hold after any run of such
  reviews (so repeated \<open>easy\<close> never lifts ease above \<open>3.5\<close>), and a run of \<open>hard\<close> and
  \<open>again\<close> only never raises ease.
\<close>

theorem ease_interval_bounds:
  assumes "ease c = Some e" and "13 / 10 \<le> e" and "e \<le> 7 / 2"
    and "grade \<in> {''again'', ''hard'', ''good'', ''easy''}"
    and "fst ` set gs \<subseteq> {''again'', ''hard'', ''good'', ''easy''}"
  shows "(\<exists>c' e' i'. schedule c grade now = Inr c' \<and> ease c' = Some e' \<and> interval c' = Some i'
           \<and> 13 / 10 \<le> e' \<and> e' \<le> 7 / 2 \<and> 1 \<le> i'
           \<and> (grade = ''hard'' \<or> grade = ''again'' \<longrightarrow> e' \<le> e))
       \<and> (\<exists>c' e'. reviews c gs = Inr c' \<and> ease c' = Some e'
           \<and> 13 / 10 \<le> e' \<and> e' \<le> 7 / 2
           \<and> (fst ` set gs \<subseteq> {''hard'', ''again''} \<longrightarrow> e' \<le> e))"
  using schedule_step_bounds[OF assms(1,2,3,4)] reviews_bounds[OF assms(1,2,3,5)]
  by (rule conjI)

theorem ease_interval_bounds_witness:
  "ease (base 0) = Some (5 / 2) \<and> (13 / 10 :: rat) \<le> 5 / 2 \<and> (5 / 2 :: rat) \<le> 7 / 2
   \<and> (\<exists>c' e' i'. schedule (base 0) ''hard'' 3 = Inr c' \<and> ease c' = Some e'
           \<and> interval c' = Some i' \<and> 13 / 10 \<le> e' \<and> e' \<le> 7 / 2 \<and> 1 \<le> i' \<and> e' \<le> 5 / 2)
   \<and> (\<exists>c' e'. reviews (base 0) [(''hard'', 1), (''again'', 2), (''hard'', 3)] = Inr c'
           \<and> ease c' = Some e' \<and> 13 / 10 \<le> e' \<and> e' \<le> 7 / 2 \<and> e' \<le> 5 / 2)"
  using ease_interval_bounds [of "base 0" "5 / 2" "''hard''"
      "[(''hard'', 1), (''again'', 2), (''hard'', 3)]" 3]
  by (simp add: base_def)

text \<open>
  C10. \<open>schedule\<close> replaces falsy scheduling fields by defaults before it applies the
  grade: an absent or zero \<open>ease\<close> is scheduled as \<open>2.5\<close> (it is not clamped to the
  floor \<open>1.3\<close>), and an absent \<open>interval\<close>, \<open>reps\<close> or \<open>lapses\<close> is scheduled as
  \<open>0\<close>. So a card with \<open>ease = 0\<close> and \<open>reps \<ge> 2\<close> graded \<open>good\<close> gets
  \<open>interval = max(1, round(interval * 2.5))\<close>.
\<close>

theorem falsy_fields_default:
  "schedule (c\<lparr>ease := None\<rparr>) grade now = schedule (c\<lparr>ease := Some (5 / 2)\<rparr>) grade now
   \<and> schedule (c\<lparr>ease := Some 0\<rparr>) grade now = schedule (c\<lparr>ease := Some (5 / 2)\<rparr>) grade now
   \<and> schedule (c\<lparr>interval := None\<rparr>) grade now = schedule (c\<lparr>interval := Some 0\<rparr>) grade now
   \<and> schedule (c\<lparr>reps := None\<rparr>) grade now = schedule (c\<lparr>reps := Some 0\<rparr>) grade now
   \<and> schedule (c\<lparr>lapses := None\<rparr>) grade now = schedule (c\<lparr>lapses := Some 0\<rparr>) grade now
   \<and> (\<forall>r i. reps c = Some r \<and> 2 \<le> r \<and> interval c = Some i \<longrightarrow>
        (\<exists>c'. schedule (c\<lparr>ease := Some 0\<rparr>) ''good'' now = Inr c'
           \<and> interval c' = Some (max 1 (math_round (of_int i * (5 / 2))))
           \<and> ease c' = Some (5 / 2)))"
proof -
  have e1: "schedule (c\<lparr>ease := None\<rparr>) grade now = schedule (c\<lparr>ease := Some (5 / 2)\<rparr>) grade now"
    by (simp add: schedule_def or_default_def split: sum.splits prod.splits)
  have e2: "schedule (c\<lparr>ease := Some 0\<rparr>) grade now = schedule (c\<lparr>ease := Some (5 / 2)\<rparr>) grade now"
    by (simp add: schedule_def or_default_def split: sum.splits prod.splits)
  have i1: "schedule (c\<lparr>interval := None\<rparr>) grade now = schedule (c\<lparr>interval := Some 0\<rparr>) grade now"
    by (simp add: schedule_def or_default_def split: sum.splits prod.splits)
  have r1: "schedule (c\<lparr>reps := None\<rparr>) grade now = schedule (c\<lparr>reps := Some 0\<rparr>) grade now"
    by (simp add: schedule_def or_default_def split: sum.splits prod.splits)
  have l1: "schedule (c\<lparr>lapses := None\<rparr>) grade now = schedule (c\<lparr>lapses := Some 0\<rparr>) grade now"
    by (simp add: schedule_def or_default_def split: sum.splits prod.splits)
  have g: "\<forall>r i. reps c = Some r \<and> 2 \<le> r \<and> interval c = Some i \<longrightarrow>
        (\<exists>c'. schedule (c\<lparr>ease := Some 0\<rparr>) ''good'' now = Inr c'
           \<and> interval c' = Some (max 1 (math_round (of_int i * (5 / 2))))
           \<and> ease c' = Some (5 / 2))"
    by (auto simp add: schedule_good or_default_def Let_def)
  show ?thesis using e1 e2 i1 r1 l1 g by blast
qed

theorem falsy_fields_default_witness:
  "reps ((base 0)\<lparr>interval := Some 6, reps := Some 2\<rparr>) = Some 2 \<and> (2::int) \<le> 2
   \<and> interval ((base 0)\<lparr>interval := Some 6, reps := Some 2\<rparr>) = Some 6
   \<and> (\<exists>c'. schedule ((base 0)\<lparr>interval := Some 6, reps := Some 2, ease := Some 0\<rparr>) ''good'' 0 = Inr c'
         \<and> interval c' = Some 15 \<and> ease c' = Some (5 / 2))
   \<and> schedule ((base 0)\<lparr>interval := Some 6, reps := Some 2, ease := None\<rparr>) ''good'' 0
       = schedule ((base 0)\<lparr>interval := Some 6, reps := Some 2\<rparr>) ''good'' 0"
proof -
  let ?c = "(base 0)\<lparr>interval := Some 6, reps := Some 2\<rparr>"
  note T = falsy_fields_default [of ?c "''good''" 0]
  have h: "reps ?c = Some 2 \<and> (2::int) \<le> 2 \<and> interval ?c = Some 6"
    by (simp add: base_def)
  have r: "max 1 (math_round (of_int 6 * (5 / 2))) = 15"
    by (simp add: math_round_def floor_eq_iff)
  have "\<forall>r i. reps ?c = Some r \<and> 2 \<le> r \<and> interval ?c = Some i \<longrightarrow>
        (\<exists>c'. schedule (?c\<lparr>ease := Some 0\<rparr>) ''good'' 0 = Inr c'
           \<and> interval c' = Some (max 1 (math_round (of_int i * (5 / 2))))
           \<and> ease c' = Some (5 / 2))"
    using T[THEN conjunct2, THEN conjunct2, THEN conjunct2, THEN conjunct2] by (rule conjunct2)
  then have "\<exists>c'. schedule (?c\<lparr>ease := Some 0\<rparr>) ''good'' 0 = Inr c'
           \<and> interval c' = Some (max 1 (math_round (of_int 6 * (5 / 2))))
           \<and> ease c' = Some (5 / 2)"
    using h by blast
  then have g: "\<exists>c'. schedule (?c\<lparr>ease := Some 0\<rparr>) ''good'' 0 = Inr c'
         \<and> interval c' = Some 15 \<and> ease c' = Some (5 / 2)"
    unfolding r .
  have b: "?c\<lparr>ease := Some (5 / 2)\<rparr> = ?c"
    by (simp add: base_def)
  have n: "schedule (?c\<lparr>ease := None\<rparr>) ''good'' 0 = schedule ?c ''good'' 0"
    using T[THEN conjunct1] unfolding b .
  show ?thesis using h g n by simp
qed

section \<open>Properties of the store\<close>

lemma createNote_eq:
  "createNote now deckId flds s =
     ((next_note s, next_card s),
      s\<lparr>db_notes := db_notes s @ [\<lparr>note_id = next_note s, note_deckId = Some deckId,
                                    note_fields = Some flds, note_createdAt = now,
                                    note_updatedAt = now\<rparr>],
        next_note := next_note s + 1,
        db_cards := db_cards s @ [\<lparr>due = Some now, interval = Some 0, ease = Some (5 / 2),
                                    reps = Some 0, lapses = Some 0, state = Some ''new'',
                                    card_id = next_card s, card_deckId = Some deckId,
                                    card_noteId = Some (next_note s)\<rparr>],
        next_card := next_card s + 1\<rparr>)"
  by (simp add: createNote_def notes_add_def cards_add_def Let_def)

text \<open>
  C2. The claim: \<open>createNote(deckId, fields)\<close> fails with a \<open>NotFoundError\<close> when
  \<open>deckId\<close> is no deck's id, and otherwise inserts one note and one card with the
  new-card values and returns both ids. \<open>createNote\<close> never looks at the decks: in the
  empty store, \<open>createNote(7, ...)\<close> inserts note 1 and card 1, both with \<open>deckId = 7\<close>.
\<close>

theorem createNote_missing_deck_counterexample:
  "7 \<notin> deck_id ` set (db_decks empty_store)
   \<and> createNote 0 7 \<lparr>f_front = Some ''q'', f_back = Some ''a''\<rparr> empty_store =
       ((1, 1),
        \<lparr>db_decks = [],
         db_notes = [\<lparr>note_id = 1, note_deckId = Some 7,
                      note_fields = Some \<lparr>f_front = Some ''q'', f_back = Some ''a''\<rparr>,
                      note_createdAt = 0, note_updatedAt = 0\<rparr>],
         db_cards = [\<lparr>due = Some 0, interval = Some 0, ease = Some (5 / 2), reps = Some 0,
                      lapses = Some 0, state = Some ''new'', card_id = 1,
                      card_deckId = Some 7, card_noteId = Some 1\<rparr>],
         next_deck = 1, next_note = 2, next_card = 2\<rparr>)"
  by (simp add: createNote_eq empty_store_def)

text \<open>
  C2, as amended. For every \<open>deckId\<close>, whether a deck has it or not, \<open>createNote\<close>
  inserts exactly one note and exactly one card, leaves the decks alone and returns the
  two generated ids; the card belongs to the note and has \<open>due = createdAt\<close>,
  \<open>interval = 0\<close>, \<open>ease = 2.5\<close>, \<open>reps = 0\<close>, \<open>lapses = 0\<close>, \<open>state = 'new'\<close>.
\<close>

theorem createNote_inserts_note_and_card:
  "\<exists>n c s'. createNote now deckId flds s = ((note_id n, card_id c), s')
     \<and> db_decks s' = db_decks s
     \<and> db_notes s' = db_notes s @ [n] \<and> db_cards s' = db_cards s @ [c]
     \<and> note_id n = next_note s \<and> card_id c = next_card s
     \<and> note_deckId n = Some deckId \<and> note_fields n = Some flds
     \<and> note_createdAt n = now \<and> note_updatedAt n = now
     \<and> card_deckId c = Some deckId \<and> card_noteId c = Some (note_id n)
     \<and> due c = Some (note_createdAt n) \<and> interval c = Some 0 \<and> ease c = Some (5 / 2)
     \<and> reps c = Some 0 \<and> lapses c = Some 0 \<and> state c = Some ''new''"
proof -
  let ?n = "\<lparr>note_id = next_note s, note_deckId = Some deckId, note_fields = Some flds,
             note_createdAt = now, note_updatedAt = now\<rparr>"
  let ?c = "\<lparr>due = Some now, interval = Some 0, ease = Some (5 / 2), reps = Some 0,
             lapses = Some 0, state = Some ''new'', card_id = next_card s,
             card_deckId = Some deckId, card_noteId = Some (next_note s)\<rparr>"
  let ?s' = "snd (createNote now deckId flds s)"
  have "createNote now deckId flds s = ((note_id ?n, card_id ?c), ?s')"
    by (simp add: createNote_eq)
  moreover have "db_decks ?s' = db_decks s"
    and "db_notes ?s' = db_notes s @ [?n]" and "db_cards ?s' = db_cards s @ [?c]"
    by (simp_all add: createNote_eq)
  ultimately show ?thesis
    by (intro exI[of _ ?n] exI[of _ ?c] exI[of _ ?s']) simp
qed

text \<open>
  C6. Every card that \<open>getDueCards(deckId, limit)\<close> returns is a card of the store with
  that \<open>deckId\<close>, with \<open>state\<close> other than \<open>'suspended'\<close> and with \<open>due \<le> now\<close>, and
  at most \<open>limit\<close> cards are returned.
\<close>

theorem getDueCards_sound:
  "(\<forall>c \<in> set (getDueCards nowMs deckId limit s).
       c \<in> set (db_cards s) \<and> card_deckId c = Some deckId \<and> state c \<noteq> Some ''suspended''
       \<and> (\<exists>t. due c = Some t \<and> t \<le> nowMs))
   \<and> length (getDueCards nowMs deckId limit s) \<le> limit"
proof -
  have "c \<in> set (db_cards s) \<and> card_deckId c = Some deckId \<and> state c \<noteq> Some ''suspended''
       \<and> (\<exists>t. due c = Some t \<and> t \<le> nowMs)"
    if "c \<in> set (getDueCards nowMs deckId limit s)" for c
  proof -
    have "c \<in> set (filter (\<lambda>c. is_due nowMs c \<and> state c \<noteq> Some ''suspended'')
         (filter (\<lambda>c. card_deckId c = Some deckId) (db_cards s)))"
      using that unfolding getDueCards_def by (rule in_set_takeD)
    then show ?thesis
      by (auto simp add: is_due_def split: option.splits)
  qed
  moreover have "length (getDueCards nowMs deckId limit s) \<le> limit"
    by (simp add: getDueCards_def)
  ultimately show ?thesis by blast
qed

theorem getDueCards_sound_witness:
  "getDueCards 10 1 1 study_store
     = [\<lparr>due = Some 10, interval = Some 1, ease = Some (5 / 2), reps = Some 1,
         lapses = Some 0, state = Some ''review'', card_id = 4,
         card_deckId = Some 1, card_noteId = Some 4\<rparr>]
   \<and> length (getDueCards 10 1 1 study_store) \<le> 1"
  using getDueCards_sound [of 10 1 1 study_store]
  by (simp add: getDueCards_def is_due_def study_store_def)

text \<open>
  C7. For every snapshot in which \<open>decks\<close>, \<open>notes\<close> or \<open>cards\<close> is absent (and for
  no snapshot at all), \<open>importJSON\<close> throws its validation error, the \<open>Error\<close> with the
  message \<open>Invalid JSON format\<close>, and the store is exactly as it was.
\<close>

theorem importJSON_rejects_missing_keys:
  assumes "obj = None \<or> (\<exists>ob. obj = Some ob \<and>
             (snap_decks ob = None \<or> snap_notes ob = None \<or> snap_cards ob = None))"
  shows "importJSON now obj s = (Inl (Error ''Invalid JSON format''), s)"
  using assms by (auto simp add: importJSON_def split: option.splits)

theorem importJSON_rejects_missing_keys_witness:
  "snap_cards ((exportJSON 1 empty_store)\<lparr>snap_cards := None\<rparr>) = None
   \<and> importJSON 2 (Some ((exportJSON 1 empty_store)\<lparr>snap_cards := None\<rparr>)) empty_store
       = (Inl (Error ''Invalid JSON format''), empty_store)"
  using importJSON_rejects_missing_keys
    [of "Some ((exportJSON 1 empty_store)\<lparr>snap_cards := None\<rparr>)" 2 empty_store]
  by simp

subsection \<open>The header test of importCSV\<close>

lemma of_char_lt_256: "(of_char c :: nat) < 256"
proof -
  have "(of_char (char_of (of_char c :: nat)) :: nat) = of_char c mod 256"
    by (rule of_char_of)
  then have "(of_char c :: nat) = of_char c mod 256" by simp
  then show ?thesis
    by (metis mod_less_divisor zero_less_numeral)
qed

lemma lower_char_idem: "lower_char (lower_char c) = lower_char c"
proof (cases "is_upper (of_char c)")
  case True
  define n where "n = (of_char c :: nat)"
  have u: "is_upper n" using True n_def by simp
  have l: "lower_char c = char_of (n + 32)"
    using True by (simp add: lower_char_def n_def)
  have "n + 32 < 256" using u unfolding is_upper_def by arith
  then have o: "(of_char (char_of (n + 32)) :: nat) = n + 32"
    by simp
  have "\<not> is_upper (n + 32)"
    using u unfolding is_upper_def by arith
  then have "lower_char (char_of (n + 32)) = char_of (n + 32)"
    unfolding lower_char_def o by simp
  then show ?thesis using l by simp
next
  case False
  then have "lower_char c = c" by (simp add: lower_char_def)
  then show ?thesis by simp
qed


lemma match_literal_lower:
  "map lower_char y = y \<Longrightarrow> (match_literal ps y = Some r) = (y = map lower_char ps @ r)"
proof (induction ps arbitrary: y)
  case Nil
  then show ?case by auto
next
  case (Cons p ps)
  show ?case
  proof (cases y)
    case Nil
    then show ?thesis by simp
  next
    case (Cons c cs)
    with Cons.prems have c: "lower_char c = c" and cs: "map lower_char cs = cs" by simp_all
    show ?thesis
      using Cons.IH[OF cs] c Cons by auto
  qed
qed

lemma optional_comma_cases:
  "\<exists>c1. (c1 = [] \<or> c1 = '','') \<and> r = c1 @ optional_comma r"
proof (cases r)
  case Nil
  then show ?thesis by simp
next
  case (Cons c cs)
  show ?thesis
  proof (cases "c = comma")
    case True
    then have "r = '','' @ optional_comma r" using Cons by simp
    then show ?thesis by blast
  next
    case False
    then have "r = [] @ optional_comma r" using Cons by simp
    then show ?thesis by blast
  qed
qed

lemma lower_suffix: "map lower_char (a @ b) = a @ b \<Longrightarrow> map lower_char b = b"
  by simp

lemma lower_lits:
  "map lower_char ''deckName'' = ''deckname''"
  "map lower_char ''front'' = ''front''"
  "map lower_char ''back'' = ''back''"
  by (simp_all add: lower_char_def is_upper_def char_of_eq_iff)


lemma optional_comma_front: "c1 = [] \<or> c1 = '','' \<Longrightarrow> optional_comma (c1 @ ''front'' @ w) = ''front'' @ w"
  by (erule disjE) simp_all

lemma optional_comma_back: "c1 = [] \<or> c1 = '','' \<Longrightarrow> optional_comma (c1 @ ''back'' @ w) = ''back'' @ w"
  by (erule disjE) simp_all

lemma header_regex_test_sound:
  assumes y: "map lower_char y = y" and t: "header_regex_test y"
  shows "\<exists>c1 c2 rest. (c1 = [] \<or> c1 = '','') \<and> (c2 = [] \<or> c2 = '','')
      \<and> y = ''deckname'' @ c1 @ ''front'' @ c2 @ ''back'' @ rest"
proof -
  obtain r1 where r1: "match_literal ''deckName'' y = Some r1"
    using t by (auto simp add: header_regex_test_def split: option.splits)
  obtain r2 where r2: "match_literal ''front'' (optional_comma r1) = Some r2"
    using t r1 by (auto simp add: header_regex_test_def split: option.splits)
  obtain r3 where r3: "match_literal ''back'' (optional_comma r2) = Some r3"
    using t r1 r2 by (auto simp add: header_regex_test_def split: option.splits)
  have y1: "y = ''deckname'' @ r1"
    using r1 match_literal_lower[OF y, of "''deckName''" r1] by (simp only: lower_lits)
  obtain c1 where c1: "c1 = [] \<or> c1 = '',''" "r1 = c1 @ optional_comma r1"
    using optional_comma_cases[of r1] by blast
  have lr1: "map lower_char r1 = r1"
    using y y1 lower_suffix[of "''deckname''" r1] by simp
  have l1: "map lower_char (optional_comma r1) = optional_comma r1"
    using lr1 c1(2) lower_suffix[of c1 "optional_comma r1"] by simp
  have y2: "optional_comma r1 = ''front'' @ r2"
    using r2 match_literal_lower[OF l1, of "''front''" r2] by (simp only: lower_lits)
  obtain c2 where c2: "c2 = [] \<or> c2 = '',''" "r2 = c2 @ optional_comma r2"
    using optional_comma_cases[of r2] by blast
  have lr2: "map lower_char r2 = r2"
    using l1 y2 lower_suffix[of "''front''" r2] by simp
  have l2: "map lower_char (optional_comma r2) = optional_comma r2"
    using lr2 c2(2) lower_suffix[of c2 "optional_comma r2"] by simp
  have y3: "optional_comma r2 = ''back'' @ r3"
    using r3 match_literal_lower[OF l2, of "''back''" r3] by (simp only: lower_lits)
  have "y = ''deckname'' @ c1 @ ''front'' @ c2 @ ''back'' @ r3"
    using y1 c1(2) y2 c2(2) y3 by metis
  then show ?thesis
    using c1(1) c2(1) by blast
qed

lemma header_regex_test_complete:
  assumes y: "map lower_char y = y" and f: "\<exists>c1 c2 rest. (c1 = [] \<or> c1 = '','') \<and> (c2 = [] \<or> c2 = '','')
      \<and> y = ''deckname'' @ c1 @ ''front'' @ c2 @ ''back'' @ rest"
  shows "header_regex_test y"
proof -
  obtain c1 c2 rest where c: "c1 = [] \<or> c1 = '',''" "c2 = [] \<or> c2 = '',''"
      and yy: "y = ''deckname'' @ c1 @ ''front'' @ c2 @ ''back'' @ rest"
    using f by blast
  let ?w1 = "c1 @ ''front'' @ c2 @ ''back'' @ rest"
  let ?w2 = "c2 @ ''back'' @ rest"
  have l0: "map lower_char ?w1 = ?w1"
    using y yy lower_suffix[of "''deckname''" ?w1] by simp
  have l1: "map lower_char (''front'' @ ?w2) = ''front'' @ ?w2"
    using l0 lower_suffix[of c1 "''front'' @ ?w2"] by simp
  have l2: "map lower_char ?w2 = ?w2"
    using l1 lower_suffix[of "''front''" ?w2] by simp
  have l3: "map lower_char (''back'' @ rest) = ''back'' @ rest"
    using l2 lower_suffix[of c2 "''back'' @ rest"] by simp
  have m1: "match_literal ''deckName'' y = Some ?w1"
    using match_literal_lower[OF y, of "''deckName''" ?w1] yy by (simp only: lower_lits)
  have o1: "optional_comma ?w1 = ''front'' @ ?w2"
    using c(1) by (rule optional_comma_front)
  have m2: "match_literal ''front'' (''front'' @ ?w2) = Some ?w2"
    using match_literal_lower[OF l1, of "''front''" ?w2] by (simp only: lower_lits)
  have o2: "optional_comma ?w2 = ''back'' @ rest"
    using c(2) by (rule optional_comma_back)
  have m3: "match_literal ''back'' (''back'' @ rest) = Some rest"
    using match_literal_lower[OF l3, of "''back''" rest] by (simp only: lower_lits)
  show "header_regex_test y"
    unfolding header_regex_test_def by (simp only: m1 o1 m2 o2 m3 option.case)
qed


lemma toLowerCase_lower: "map lower_char (toLowerCase x) = toLowerCase x"
  by (simp add: toLowerCase_def lower_char_idem)

text \<open>
  C8, as amended. \<open>importCSV\<close> throws its header error, the \<open>Error\<close> with the message
  \<open>CSV header must be: deckName,front,back\<close>, and leaves the store as it was, exactly
  when the text has no non-empty line or its first non-empty line, with every double
  quote removed and put in lower case, does not begin with \<open>deckname\<close>, an optional
  comma, \<open>front\<close>, an optional comma and \<open>back\<close>. Otherwise the header is accepted and
  the remaining non-empty lines are imported; so a header equal to
  \<open>deckName,front,back\<close> up to case and quotes is accepted, and so is one that goes on
  after \<open>back\<close> or has no commas.
\<close>

theorem importCSV_header_check:
  "(filter (\<lambda>l. l \<noteq> []) (split_lines [] text) = [] \<longrightarrow>
      importCSV now text s = (Inl (Error ''CSV header must be: deckName,front,back''), s))
   \<and> (\<forall>header rest. filter (\<lambda>l. l \<noteq> []) (split_lines [] text) = header # rest \<longrightarrow>
        (if \<exists>c1 c2 tail. (c1 = [] \<or> c1 = '','') \<and> (c2 = [] \<or> c2 = '','')
              \<and> toLowerCase (filter (\<lambda>c. c \<noteq> dq) header)
                  = ''deckname'' @ c1 @ ''front'' @ c2 @ ''back'' @ tail
         then importCSV now text s = (Inr (), import_lines now rest s)
         else importCSV now text s = (Inl (Error ''CSV header must be: deckName,front,back''), s)))"
proof (intro conjI impI allI)
  assume "filter (\<lambda>l. l \<noteq> []) (split_lines [] text) = []"
  then show "importCSV now text s = (Inl (Error ''CSV header must be: deckName,front,back''), s)"
    by (simp add: importCSV_def)
next
  fix header rest
  assume l: "filter (\<lambda>l. l \<noteq> []) (split_lines [] text) = header # rest"
  let ?y = "toLowerCase (filter (\<lambda>c. c \<noteq> dq) header)"
  let ?form = "\<exists>c1 c2 tail. (c1 = [] \<or> c1 = '','') \<and> (c2 = [] \<or> c2 = '','')
              \<and> ?y = ''deckname'' @ c1 @ ''front'' @ c2 @ ''back'' @ tail"
  have iff: "header_regex_test ?y = ?form"
    using header_regex_test_sound[OF toLowerCase_lower, of "filter (\<lambda>c. c \<noteq> dq) header"]
      header_regex_test_complete[OF toLowerCase_lower, of "filter (\<lambda>c. c \<noteq> dq) header"]
    by blast
  have imp: "importCSV now text s =
      (if header_regex_test ?y then (Inr (), import_lines now rest s)
       else (Inl (Error ''CSV header must be: deckName,front,back''), s))"
    using l by (simp add: importCSV_def)
  show "if ?form
         then importCSV now text s = (Inr (), import_lines now rest s)
         else importCSV now text s = (Inl (Error ''CSV header must be: deckName,front,back''), s)"
    unfolding imp iff by simp
qed

theorem importCSV_header_check_witness:
  "importCSV 0 ''DeckName,FRONT,Back'' empty_store = (Inr (), empty_store)
   \<and> importCSV 0 ''front,back,deckName'' empty_store
       = (Inl (Error ''CSV header must be: deckName,front,back''), empty_store)"
proof -
  have l1: "filter (\<lambda>l. l \<noteq> []) (split_lines [] ''DeckName,FRONT,Back'') = [''DeckName,FRONT,Back'']"
    by simp
  have y1: "toLowerCase (filter (\<lambda>c. c \<noteq> dq) ''DeckName,FRONT,Back'') = ''deckname,front,back''"
    by (simp add: toLowerCase_def lower_char_def is_upper_def char_of_eq_iff)
  have f1: "\<exists>c1 c2 tail. (c1 = [] \<or> c1 = '','') \<and> (c2 = [] \<or> c2 = '','')
              \<and> toLowerCase (filter (\<lambda>c. c \<noteq> dq) ''DeckName,FRONT,Back'')
                  = ''deckname'' @ c1 @ ''front'' @ c2 @ ''back'' @ tail"
    unfolding y1 by (intro exI[of _ "'',''"] exI[of _ "[]"]) simp
  have a: "importCSV 0 ''DeckName,FRONT,Back'' empty_store = (Inr (), empty_store)"
    using importCSV_header_check[of "''DeckName,FRONT,Back''" 0 empty_store] l1 f1
    by (simp only: import_lines.simps if_True simp_thms)
  have l2: "filter (\<lambda>l. l \<noteq> []) (split_lines [] ''front,back,deckName'') = [''front,back,deckName'']"
    by simp
  have y2: "toLowerCase (filter (\<lambda>c. c \<noteq> dq) ''front,back,deckName'') = ''front,back,deckname''"
    by (simp add: toLowerCase_def lower_char_def is_upper_def char_of_eq_iff)
  have f2: "\<not> (\<exists>c1 c2 tail. (c1 = [] \<or> c1 = '','') \<and> (c2 = [] \<or> c2 = '','')
              \<and> toLowerCase (filter (\<lambda>c. c \<noteq> dq) ''front,back,deckName'')
                  = ''deckname'' @ c1 @ ''front'' @ c2 @ ''back'' @ tail)"
    unfolding y2 by simp
  have b: "importCSV 0 ''front,back,deckName'' empty_store
       = (Inl (Error ''CSV header must be: deckName,front,back''), empty_store)"
    using importCSV_header_check[of "''front,back,deckName''" 0 empty_store] l2 f2
    by (simp only: if_False simp_thms)
  show ?thesis using a b by (rule conjI)
qed

text \<open>
  C8. The claim: every header that does not match \<open>deckName,front,back\<close>, compared
  without regard to case and quotes, is rejected, among them every header with other
  column names. The test is a prefix match with optional commas: \<open>deckNamefrontback\<close>
  and \<open>deckName,front,backlog,tags\<close> are both accepted.
\<close>

theorem importCSV_header_counterexample:
  "toLowerCase (filter (\<lambda>c. c \<noteq> dq) ''deckNamefrontback'') \<noteq> toLowerCase ''deckName,front,back''
   \<and> importCSV 0 ''deckNamefrontback'' empty_store = (Inr (), empty_store)
   \<and> toLowerCase (filter (\<lambda>c. c \<noteq> dq) ''deckName,front,backlog,tags'')
        \<noteq> toLowerCase ''deckName,front,back''
   \<and> importCSV 0 ''deckName,front,backlog,tags'' empty_store = (Inr (), empty_store)"
  by (simp add: importCSV_def header_regex_test_def toLowerCase_def lower_char_def is_upper_def
      char_of_eq_iff)


section \<open>Referential integrity\<close>

lemma createDeck_eq:
  "createDeck now name s =
     (next_deck s,
      s\<lparr>db_decks := db_decks s @ [\<lparr>deck_id = next_deck s, deck_name = Some name, deck_createdAt = now\<rparr>],
        next_deck := next_deck s + 1\<rparr>)"
  by (simp add: createDeck_def decks_add_def)

lemma ball_map_cong:
  assumes "map f xs = map f ys"
  shows "(\<forall>x \<in> set xs. P (f x)) = (\<forall>y \<in> set ys. P (f y))"
proof -
  have "(\<forall>x \<in> set xs. P (f x)) = (\<forall>i \<in> set (map f xs). P i)" by simp
  also have "\<dots> = (\<forall>i \<in> set (map f ys). P i)" using assms by simp
  also have "\<dots> = (\<forall>y \<in> set ys. P (f y))" by simp
  finally show ?thesis .
qed

lemma bex_map_cong:
  assumes "map f xs = map f ys"
  shows "(\<exists>x \<in> set xs. P (f x)) = (\<exists>y \<in> set ys. P (f y))"
proof -
  have "(\<exists>x \<in> set xs. P (f x)) = (\<exists>i \<in> set (map f xs). P i)" by simp
  also have "\<dots> = (\<exists>i \<in> set (map f ys). P i)" using assms by simp
  also have "\<dots> = (\<exists>y \<in> set ys. P (f y))" by simp
  finally show ?thesis .
qed

lemma count_map_cong:
  assumes "map f xs = map f ys"
  shows "length (filter (\<lambda>x. Q (f x)) xs) = length (filter (\<lambda>y. Q (f y)) ys)"
proof -
  have "length (filter (\<lambda>x. Q (f x)) xs) = length (filter Q (map f xs))"
    by (simp add: filter_map comp_def)
  also have "\<dots> = length (filter Q (map f ys))" using assms by simp
  also have "\<dots> = length (filter (\<lambda>y. Q (f y)) ys)"
    by (simp add: filter_map comp_def)
  finally show ?thesis .
qed

lemma map_proj_cong:
  assumes "map f xs = map f ys" and "\<And>x. g x = h (f x)"
  shows "map g xs = map g ys"
proof -
  have "map g xs = map h (map f xs)" using assms(2) by simp
  also have "\<dots> = map h (map f ys)" using assms(1) by simp
  also have "\<dots> = map g ys" using assms(2) by simp
  finally show ?thesis .
qed

lemma inv_decks_cong:
  assumes "map deck_id ds = map deck_id (db_decks s)"
  shows "store_inv (s\<lparr>db_decks := ds\<rparr>) = store_inv s"
proof -
  have b: "\<And>P. (\<forall>d \<in> set ds. P (deck_id d)) = (\<forall>d \<in> set (db_decks s). P (deck_id d))"
    using assms by (rule ball_map_cong)
  have e: "\<And>P. (\<exists>d \<in> set ds. P (deck_id d)) = (\<exists>d \<in> set (db_decks s). P (deck_id d))"
    using assms by (rule bex_map_cong)
  have "ids_ok (s\<lparr>db_decks := ds\<rparr>) = ids_ok s"
    using b[of "\<lambda>i. i < next_deck s"] by (simp add: ids_ok_def assms)
  moreover have "refs_ok (s\<lparr>db_decks := ds\<rparr>) = refs_ok s"
    using e[of "\<lambda>i. r = Some i" for r] by (simp add: refs_ok_def)
  moreover have "owned_ok (s\<lparr>db_decks := ds\<rparr>) = owned_ok s"
    by (simp add: owned_ok_def)
  moreover have "one_card (s\<lparr>db_decks := ds\<rparr>) = one_card s"
    by (simp add: one_card_def)
  ultimately show ?thesis by (simp add: store_inv_def)
qed

lemma inv_notes_cong:
  assumes "map (\<lambda>n. (note_id n, note_deckId n)) ns = map (\<lambda>n. (note_id n, note_deckId n)) (db_notes s)"
  shows "store_inv (s\<lparr>db_notes := ns\<rparr>) = store_inv s"
proof -
  let ?f = "\<lambda>n. (note_id n, note_deckId n)"
  have b: "\<And>P. (\<forall>n \<in> set ns. P (note_id n) (note_deckId n)) = (\<forall>n \<in> set (db_notes s). P (note_id n) (note_deckId n))"
    using ball_map_cong[OF assms, of "\<lambda>(i, d). P i d" for P] by simp
  have e: "\<And>P. (\<exists>n \<in> set ns. P (note_id n) (note_deckId n)) = (\<exists>n \<in> set (db_notes s). P (note_id n) (note_deckId n))"
    using bex_map_cong[OF assms, of "\<lambda>(i, d). P i d" for P] by simp
  have m: "map note_id ns = map note_id (db_notes s)"
    using assms by (rule map_proj_cong[where h = fst]) simp
  have "ids_ok (s\<lparr>db_notes := ns\<rparr>) = ids_ok s"
    using b[of "\<lambda>i d. i < next_note s"] by (simp add: ids_ok_def m)
  moreover have "refs_ok (s\<lparr>db_notes := ns\<rparr>) = refs_ok s"
    using b[of "\<lambda>i r. \<exists>d \<in> set (db_decks s). r = Some (deck_id d)"]
      e[of "\<lambda>i d. c = Some i" for c]
    by (simp add: refs_ok_def)
  moreover have "owned_ok (s\<lparr>db_notes := ns\<rparr>) = owned_ok s"
    using e[of "\<lambda>i d. a = Some i \<and> b = d" for a b]
    by (simp add: owned_ok_def)
  moreover have "one_card (s\<lparr>db_notes := ns\<rparr>) = one_card s"
    using b[of "\<lambda>i d. length (filter (\<lambda>c. card_noteId c = Some i) (db_cards s)) = 1"]
    by (simp add: one_card_def)
  ultimately show ?thesis by (simp add: store_inv_def)
qed

lemma inv_cards_cong:
  assumes "map (\<lambda>c. (card_id c, card_noteId c, card_deckId c)) cs
         = map (\<lambda>c. (card_id c, card_noteId c, card_deckId c)) (db_cards s)"
  shows "store_inv (s\<lparr>db_cards := cs\<rparr>) = store_inv s"
proof -
  have b: "\<And>P. (\<forall>c \<in> set cs. P (card_id c) (card_noteId c) (card_deckId c))
             = (\<forall>c \<in> set (db_cards s). P (card_id c) (card_noteId c) (card_deckId c))"
    using ball_map_cong[OF assms, of "\<lambda>(i, n, d). P i n d" for P] by simp
  have k: "\<And>Q. length (filter (\<lambda>c. Q (card_noteId c)) cs)
             = length (filter (\<lambda>c. Q (card_noteId c)) (db_cards s))"
    using count_map_cong[OF assms, of "\<lambda>(i, n, d). Q n" for Q] by simp
  have m: "map card_id cs = map card_id (db_cards s)"
    using assms by (rule map_proj_cong[where h = fst]) simp
  have "ids_ok (s\<lparr>db_cards := cs\<rparr>) = ids_ok s"
    using b[of "\<lambda>i n d. i < next_card s"] by (simp add: ids_ok_def m)
  moreover have "refs_ok (s\<lparr>db_cards := cs\<rparr>) = refs_ok s"
    using b[of "\<lambda>i r d. \<exists>n \<in> set (db_notes s). r = Some (note_id n)"]
    by (simp add: refs_ok_def)
  moreover have "owned_ok (s\<lparr>db_cards := cs\<rparr>) = owned_ok s"
    using b[of "\<lambda>i r d. \<exists>n \<in> set (db_notes s). r = Some (note_id n) \<and> d = note_deckId n"]
    by (simp add: owned_ok_def)
  moreover have "one_card (s\<lparr>db_cards := cs\<rparr>) = one_card s"
    using k[of "\<lambda>r. r = Some i" for i]
    by (simp add: one_card_def)
  ultimately show ?thesis by (simp add: store_inv_def)
qed

lemma inv_createDeck:
  assumes "store_inv s"
  shows "store_inv (snd (createDeck now name s))"
proof -
  have "ids_ok (snd (createDeck now name s))"
    using assms by (auto simp add: store_inv_def ids_ok_def createDeck_eq)
  moreover have "refs_ok (snd (createDeck now name s))"
    using assms by (auto simp add: store_inv_def refs_ok_def createDeck_eq)
  moreover have "owned_ok (snd (createDeck now name s))"
    using assms by (simp add: store_inv_def owned_ok_def createDeck_eq)
  moreover have "one_card (snd (createDeck now name s))"
    using assms by (simp add: store_inv_def one_card_def createDeck_eq)
  ultimately show ?thesis by (simp add: store_inv_def)
qed

lemma inv_renameDeck:
  assumes "store_inv s"
  shows "store_inv (snd (renameDeck ident name s))"
proof -
  let ?f = "\<lambda>d. if deck_id d = ident then d\<lparr>deck_name := Some name\<rparr> else d"
  have "deck_id \<circ> ?f = deck_id" by (rule ext) simp
  then have "map deck_id (map ?f (db_decks s)) = map deck_id (db_decks s)" by simp
  then show ?thesis
    using assms by (simp add: renameDeck_def inv_decks_cong)
qed

lemma inv_updateNote:
  assumes "store_inv s"
  shows "store_inv (updateNote now noteId flds s)"
proof -
  let ?f = "\<lambda>n. if note_id n = noteId then n\<lparr>note_fields := Some flds, note_updatedAt := now\<rparr> else n"
  let ?p = "\<lambda>n. (note_id n, note_deckId n)"
  have "?p \<circ> ?f = ?p" by (rule ext) simp
  then have "map ?p (map ?f (db_notes s)) = map ?p (db_notes s)" by simp
  then show ?thesis
    using assms by (simp add: updateNote_def inv_notes_cong)
qed

lemma inv_updateCard:
  assumes "store_inv s" and "p_deckId p = None" and "p_noteId p = None"
  shows "store_inv (snd (updateCard cardId p s))"
proof -
  let ?f = "\<lambda>c. if card_id c = cardId then apply_patch p c else c"
  let ?p = "\<lambda>c. (card_id c, card_noteId c, card_deckId c)"
  have "?p \<circ> ?f = ?p"
    using assms(2,3) by (intro ext) (simp add: apply_patch_def merge_field_def)
  then have "map ?p (map ?f (db_cards s)) = map ?p (db_cards s)" by simp
  then show ?thesis
    using assms(1) by (simp add: updateCard_def inv_cards_cong)
qed

lemma createNote_fields:
  "db_decks (snd (createNote now deckId flds s)) = db_decks s"
  "db_notes (snd (createNote now deckId flds s)) =
     db_notes s @ [\<lparr>note_id = next_note s, note_deckId = Some deckId, note_fields = Some flds,
                    note_createdAt = now, note_updatedAt = now\<rparr>]"
  "db_cards (snd (createNote now deckId flds s)) =
     db_cards s @ [\<lparr>due = Some now, interval = Some 0, ease = Some (5 / 2), reps = Some 0,
                    lapses = Some 0, state = Some ''new'', card_id = next_card s,
                    card_deckId = Some deckId, card_noteId = Some (next_note s)\<rparr>]"
  "next_deck (snd (createNote now deckId flds s)) = next_deck s"
  "next_note (snd (createNote now deckId flds s)) = next_note s + 1"
  "next_card (snd (createNote now deckId flds s)) = next_card s + 1"
  by (simp_all add: createNote_eq)

lemma distinct_snoc_fresh:
  fixes k :: "'a \<Rightarrow> nat"
  assumes "distinct (map k xs)" and "\<forall>x \<in> set xs. k x < n" and "k y = n"
  shows "distinct (map k (xs @ [y]))"
proof -
  have "k y \<notin> k ` set xs" using assms(2,3) by auto
  then show ?thesis using assms(1) by simp
qed

lemma bound_snoc:
  fixes k :: "'a \<Rightarrow> nat"
  assumes "\<forall>x \<in> set xs. k x < n" and "k y = n"
  shows "\<forall>x \<in> set (xs @ [y]). k x < n + 1"
  using assms by (simp add: less_Suc_eq)

lemma refs_ok_card:
  "refs_ok s \<Longrightarrow> c \<in> set (db_cards s) \<Longrightarrow> \<exists>n \<in> set (db_notes s). card_noteId c = Some (note_id n)"
  by (simp add: refs_ok_def)

lemma refs_ok_note:
  "refs_ok s \<Longrightarrow> n \<in> set (db_notes s) \<Longrightarrow> \<exists>d \<in> set (db_decks s). note_deckId n = Some (deck_id d)"
  by (simp add: refs_ok_def)

lemma owned_ok_card:
  "owned_ok s \<Longrightarrow> c \<in> set (db_cards s) \<Longrightarrow>
     \<exists>n \<in> set (db_notes s). card_noteId c = Some (note_id n) \<and> card_deckId c = note_deckId n"
  by (simp add: owned_ok_def)

lemma one_card_note:
  "one_card s \<Longrightarrow> n \<in> set (db_notes s) \<Longrightarrow>
     length (filter (\<lambda>c. card_noteId c = Some (note_id n)) (db_cards s)) = 1"
  by (simp add: one_card_def)

lemma inv_createNote:
  assumes inv: "store_inv s" and d: "deckId \<in> deck_id ` set (db_decks s)"
  shows "store_inv (snd (createNote now deckId flds s))"
proof -
  let ?s' = "snd (createNote now deckId flds s)"
  let ?n0 = "\<lparr>note_id = next_note s, note_deckId = Some deckId, note_fields = Some flds,
                    note_createdAt = now, note_updatedAt = now\<rparr>"
  let ?c0 = "\<lparr>due = Some now, interval = Some 0, ease = Some (5 / 2), reps = Some 0,
                    lapses = Some 0, state = Some ''new'', card_id = next_card s,
                    card_deckId = Some deckId, card_noteId = Some (next_note s)\<rparr>"
  have ids: "ids_ok s" and refs: "refs_ok s" and own: "owned_ok s" and one: "one_card s"
    using inv by (simp_all add: store_inv_def)
  have nlt: "\<forall>n \<in> set (db_notes s). note_id n < next_note s"
    and clt: "\<forall>c \<in> set (db_cards s). card_id c < next_card s"
    and dlt: "\<forall>d \<in> set (db_decks s). deck_id d < next_deck s"
    and dn: "distinct (map note_id (db_notes s))"
    and dc: "distinct (map card_id (db_cards s))"
    and dd: "distinct (map deck_id (db_decks s))"
    using ids by (simp_all add: ids_ok_def)
  have old_cards: "card_noteId c \<noteq> Some (next_note s)" if cin: "c \<in> set (db_cards s)" for c
  proof -
    obtain n where n: "n \<in> set (db_notes s)" "card_noteId c = Some (note_id n)"
      using refs_ok_card[OF refs cin] by (elim bexE)
    have "note_id n < next_note s" using nlt n(1) by (rule bspec)
    then show ?thesis using n(2) by simp
  qed
  then have none: "filter (\<lambda>c. card_noteId c = Some (next_note s)) (db_cards s) = []"
    by (simp add: filter_empty_conv)
  have "ids_ok ?s'"
    unfolding ids_ok_def createNote_fields
    using dd dlt distinct_snoc_fresh[OF dn nlt, of ?n0] bound_snoc[OF nlt, of ?n0]
      distinct_snoc_fresh[OF dc clt, of ?c0] bound_snoc[OF clt, of ?c0]
    by simp
  moreover have "refs_ok ?s'"
  proof -
    have "\<exists>n \<in> set (db_notes s @ [?n0]). card_noteId c = Some (note_id n)"
      if "c \<in> set (db_cards s @ [?c0])" for c
    proof (cases "c \<in> set (db_cards s)")
      case True
      then show ?thesis using refs_ok_card[OF refs True] by auto
    next
      case False
      then have "c = ?c0" using that by simp
      then show ?thesis by simp
    qed
    moreover have "\<exists>d \<in> set (db_decks s). note_deckId n = Some (deck_id d)"
      if "n \<in> set (db_notes s @ [?n0])" for n
    proof (cases "n \<in> set (db_notes s)")
      case True
      then show ?thesis using refs_ok_note[OF refs True] by auto
    next
      case False
      then have "n = ?n0" using that by simp
      then show ?thesis using d by auto
    qed
    ultimately show ?thesis
      unfolding refs_ok_def createNote_fields by blast
  qed
  moreover have "owned_ok ?s'"
  proof -
    have "\<exists>n \<in> set (db_notes s @ [?n0]). card_noteId c = Some (note_id n) \<and> card_deckId c = note_deckId n"
      if "c \<in> set (db_cards s @ [?c0])" for c
    proof (cases "c \<in> set (db_cards s)")
      case True
      then show ?thesis using owned_ok_card[OF own True] by auto
    next
      case False
      then have "c = ?c0" using that by simp
      then show ?thesis by simp
    qed
    then show ?thesis
      unfolding owned_ok_def createNote_fields by blast
  qed
  moreover have "one_card ?s'"
  proof -
    have "length (filter (\<lambda>c. card_noteId c = Some (note_id n)) (db_cards s @ [?c0])) = 1"
      if "n \<in> set (db_notes s @ [?n0])" for n
    proof (cases "n \<in> set (db_notes s)")
      case True
      then have "note_id n < next_note s" using nlt by (rule_tac bspec)
      then have "note_id n \<noteq> next_note s" by simp
      moreover have "length (filter (\<lambda>c. card_noteId c = Some (note_id n)) (db_cards s)) = 1"
        using one True by (rule one_card_note)
      ultimately show ?thesis by simp
    next
      case False
      then have "n = ?n0" using that by simp
      then show ?thesis using none by simp
    qed
    then show ?thesis unfolding one_card_def createNote_fields by blast
  qed
  ultimately show ?thesis by (simp add: store_inv_def)
qed

lemma inv_deleteNote:
  assumes inv: "store_inv s"
  shows "store_inv (deleteNote noteId s)"
proof -
  let ?s' = "deleteNote noteId s"
  have ids: "ids_ok s" and refs: "refs_ok s" and own: "owned_ok s" and one: "one_card s"
    using inv by (simp_all add: store_inv_def)
  have "ids_ok ?s'"
    using ids by (auto simp add: ids_ok_def deleteNote_def Let_def distinct_map_filter)
  moreover have "refs_ok ?s'"
    using refs by (fastforce simp add: refs_ok_def deleteNote_def Let_def)
  moreover have "owned_ok ?s'"
    using own by (fastforce simp add: owned_ok_def deleteNote_def Let_def)
  moreover have "one_card ?s'"
  proof -
    have "length (filter (\<lambda>c. card_noteId c = Some (note_id n))
                    (filter (\<lambda>c. card_noteId c \<noteq> Some noteId) (db_cards s))) = 1"
      if "n \<in> set (db_notes s)" "note_id n \<noteq> noteId" for n
    proof -
      have "filter (\<lambda>c. card_noteId c = Some (note_id n))
                    (filter (\<lambda>c. card_noteId c \<noteq> Some noteId) (db_cards s))
            = filter (\<lambda>c. card_noteId c = Some (note_id n)) (db_cards s)"
        using that(2) by (auto simp add: filter_filter intro!: filter_cong)
      then show ?thesis using one that(1) unfolding one_card_def by simp
    qed
    then show ?thesis by (simp add: one_card_def deleteNote_def Let_def)
  qed
  ultimately show ?thesis by (simp add: store_inv_def)
qed

lemma same_key:
  "distinct (map k xs) \<Longrightarrow> x \<in> set xs \<Longrightarrow> y \<in> set xs \<Longrightarrow> k x = k y \<Longrightarrow> x = y"
  by (meson distinct_map inj_onD)

lemma deleteDeck_fields:
  "db_decks (deleteDeck ident s) = filter (\<lambda>d. deck_id d \<noteq> ident) (db_decks s)"
  "db_notes (deleteDeck ident s) = filter (\<lambda>n. note_deckId n \<noteq> Some ident) (db_notes s)"
  "db_cards (deleteDeck ident s) = filter (\<lambda>c. card_deckId c \<noteq> Some ident) (db_cards s)"
  "next_deck (deleteDeck ident s) = next_deck s"
  "next_note (deleteDeck ident s) = next_note s"
  "next_card (deleteDeck ident s) = next_card s"
  by (simp_all add: deleteDeck_def Let_def)

lemma card_of_note_deck:
  assumes ids: "ids_ok s" and own: "owned_ok s"
    and n: "n \<in> set (db_notes s)" and c: "c \<in> set (db_cards s)"
    and r: "card_noteId c = Some (note_id n)"
  shows "card_deckId c = note_deckId n"
proof -
  obtain n' where n': "n' \<in> set (db_notes s)" "card_noteId c = Some (note_id n')"
      "card_deckId c = note_deckId n'"
    using owned_ok_card[OF own c] by (elim bexE conjE)
  have dn: "distinct (map note_id (db_notes s))" using ids by (simp add: ids_ok_def)
  have "note_id n' = note_id n" using n'(2) r by simp
  then have "n' = n" using same_key[OF dn n'(1) n] by simp
  then show ?thesis using n'(3) by simp
qed

lemma inv_deleteDeck:
  assumes inv: "store_inv s"
  shows "store_inv (deleteDeck ident s)"
proof -
  let ?s' = "deleteDeck ident s"
  have ids: "ids_ok s" and refs: "refs_ok s" and own: "owned_ok s" and one: "one_card s"
    using inv by (simp_all add: store_inv_def)
  have "ids_ok ?s'"
    using ids unfolding ids_ok_def deleteDeck_fields
    by (simp add: distinct_map_filter)
  moreover have ow: "\<exists>n \<in> set (db_notes ?s'). card_noteId c = Some (note_id n) \<and> card_deckId c = note_deckId n"
    if cin: "c \<in> set (db_cards ?s')" for c
  proof -
    have c: "c \<in> set (db_cards s)" "card_deckId c \<noteq> Some ident"
      using cin by (simp_all add: deleteDeck_fields)
    obtain n where n: "n \<in> set (db_notes s)" "card_noteId c = Some (note_id n)"
        "card_deckId c = note_deckId n"
      using owned_ok_card[OF own c(1)] by (elim bexE conjE)
    have "n \<in> set (db_notes ?s')" using n(1,3) c(2) by (simp add: deleteDeck_fields)
    then show ?thesis using n(2,3) by blast
  qed
  moreover have nd: "\<exists>d \<in> set (db_decks ?s'). note_deckId n = Some (deck_id d)"
    if nin: "n \<in> set (db_notes ?s')" for n
  proof -
    have n: "n \<in> set (db_notes s)" "note_deckId n \<noteq> Some ident"
      using nin by (simp_all add: deleteDeck_fields)
    obtain d where d: "d \<in> set (db_decks s)" "note_deckId n = Some (deck_id d)"
      using refs_ok_note[OF refs n(1)] by (elim bexE)
    have "d \<in> set (db_decks ?s')" using d n(2) by (simp add: deleteDeck_fields)
    then show ?thesis using d(2) by blast
  qed
  moreover have "length (filter (\<lambda>c. card_noteId c = Some (note_id n)) (db_cards ?s')) = 1"
    if nin: "n \<in> set (db_notes ?s')" for n
  proof -
    have n: "n \<in> set (db_notes s)" "note_deckId n \<noteq> Some ident"
      using nin by (simp_all add: deleteDeck_fields)
    have "filter (\<lambda>c. card_noteId c = Some (note_id n)) (db_cards ?s')
        = filter (\<lambda>c. card_noteId c = Some (note_id n)) (db_cards s)"
      unfolding deleteDeck_fields filter_filter
    proof (rule filter_cong[OF refl])
      fix c assume c: "c \<in> set (db_cards s)"
      show "(card_deckId c \<noteq> Some ident \<and> card_noteId c = Some (note_id n))
          = (card_noteId c = Some (note_id n))"
        using card_of_note_deck[OF ids own n(1) c] n(2) by auto
    qed
    then show ?thesis using one_card_note[OF one n(1)] by simp
  qed
  ultimately show ?thesis
    unfolding store_inv_def refs_ok_def owned_ok_def one_card_def by blast
qed

lemma filter_singleton:
  assumes "length (filter P xs) = 1"
  shows "filter P xs = [hd (filter P xs)]"
  using assms by (cases "filter P xs") simp_all

lemma deck_cards_count:
  assumes inv: "store_inv s"
  shows "length (filter (\<lambda>c. card_deckId c = Some ident) (db_cards s))
       = length (filter (\<lambda>n. note_deckId n = Some ident) (db_notes s))"
proof -
  have ids: "ids_ok s" and own: "owned_ok s" and one: "one_card s"
    using inv by (simp_all add: store_inv_def)
  have dn: "distinct (map note_id (db_notes s))" and dc: "distinct (map card_id (db_cards s))"
    using ids by (simp_all add: ids_ok_def)
  define g where "g n = hd (filter (\<lambda>c. card_noteId c = Some (note_id n)) (db_cards s))" for n :: Note
  let ?N = "{n \<in> set (db_notes s). note_deckId n = Some ident}"
  let ?C = "{c \<in> set (db_cards s). card_deckId c = Some ident}"
  have gf: "filter (\<lambda>c. card_noteId c = Some (note_id n)) (db_cards s) = [g n]"
    if n: "n \<in> set (db_notes s)" for n
    unfolding g_def using one_card_note[OF one n] by (rule filter_singleton)
  have gin: "g n \<in> set (db_cards s) \<and> card_noteId (g n) = Some (note_id n)"
    if n: "n \<in> set (db_notes s)" for n
  proof -
    have "g n \<in> set (filter (\<lambda>c. card_noteId c = Some (note_id n)) (db_cards s))"
      using gf[OF n] by simp
    then show ?thesis by simp
  qed
  have inj: "inj_on g ?N"
  proof (rule inj_onI)
    fix a b assume a: "a \<in> ?N" and b: "b \<in> ?N" and e: "g a = g b"
    have "Some (note_id a) = Some (note_id b)"
      using gin[of a] gin[of b] a b e by simp
    then show "a = b" using same_key[OF dn, of a b] a b by simp
  qed
  have img: "g ` ?N = ?C"
  proof (rule set_eqI, rule iffI)
    fix c assume "c \<in> g ` ?N"
    then obtain n where n: "n \<in> set (db_notes s)" "note_deckId n = Some ident" "c = g n"
      by blast
    have "card_deckId (g n) = note_deckId n"
      using card_of_note_deck[OF ids own n(1)] gin[OF n(1)] by simp
    then show "c \<in> ?C" using n gin[OF n(1)] by simp
  next
    fix c assume "c \<in> ?C"
    then have c: "c \<in> set (db_cards s)" "card_deckId c = Some ident" by simp_all
    obtain n where n: "n \<in> set (db_notes s)" "card_noteId c = Some (note_id n)"
        "card_deckId c = note_deckId n"
      using owned_ok_card[OF own c(1)] by (elim bexE conjE)
    have "c \<in> set (filter (\<lambda>c. card_noteId c = Some (note_id n)) (db_cards s))"
      using c(1) n(2) by simp
    then have "c = g n" using gf[OF n(1)] by simp
    moreover have "n \<in> ?N" using n(1,3) c(2) by simp
    ultimately show "c \<in> g ` ?N" by blast
  qed
  have "card ?C = card ?N"
    using card_image[OF inj] img by simp
  moreover have "length (filter (\<lambda>c. card_deckId c = Some ident) (db_cards s)) = card ?C"
  proof -
    have "distinct (db_cards s)" using dc by (rule distinct_map[THEN iffD1, THEN conjunct1])
    then have "distinct (filter (\<lambda>c. card_deckId c = Some ident) (db_cards s))" by simp
    then have "card (set (filter (\<lambda>c. card_deckId c = Some ident) (db_cards s)))
        = length (filter (\<lambda>c. card_deckId c = Some ident) (db_cards s))"
      by (rule distinct_card)
    then show ?thesis by simp
  qed
  moreover have "length (filter (\<lambda>n. note_deckId n = Some ident) (db_notes s)) = card ?N"
  proof -
    have "distinct (db_notes s)" using dn by (rule distinct_map[THEN iffD1, THEN conjunct1])
    then have "distinct (filter (\<lambda>n. note_deckId n = Some ident) (db_notes s))" by simp
    then have "card (set (filter (\<lambda>n. note_deckId n = Some ident) (db_notes s)))
        = length (filter (\<lambda>n. note_deckId n = Some ident) (db_notes s))"
      by (rule distinct_card)
    then show ?thesis by simp
  qed
  ultimately show ?thesis by simp
qed

lemma find_in_set: "find P xs = Some x \<Longrightarrow> x \<in> set xs \<and> P x"
  by (induction xs) (auto split: if_splits)

lemma getOrCreateDeckId_inv:
  assumes inv: "store_inv s"
  shows "store_inv (snd (getOrCreateDeckId now name s))
       \<and> fst (getOrCreateDeckId now name s) \<in> deck_id ` set (db_decks (snd (getOrCreateDeckId now name s)))"
proof (cases "find (\<lambda>d. deck_name d = Some name) (db_decks s)")
  case None
  then have e: "getOrCreateDeckId now name s = createDeck now name s"
    by (simp add: getOrCreateDeckId_def)
  show ?thesis
    unfolding e using inv_createDeck[OF inv, of now name] by (simp add: createDeck_eq)
next
  case (Some d)
  then have e: "getOrCreateDeckId now name s = (deck_id d, s)"
    by (simp add: getOrCreateDeckId_def)
  have "d \<in> set (db_decks s)" using find_in_set[OF Some] by simp
  then show ?thesis unfolding e using inv by simp
qed

lemma import_line_eq:
  "import_line now line s =
    (let cells = map parseCell (split_cells [] False [] line);
         r = getOrCreateDeckId now (cell_or cells 0 ''Imported'') s
     in snd (createNote now (fst r)
               \<lparr>f_front = Some (cell_or cells 1 []), f_back = Some (cell_or cells 2 [])\<rparr> (snd r)))"
  by (simp add: import_line_def Let_def split: prod.splits)

lemma inv_import_line:
  assumes "store_inv s"
  shows "store_inv (import_line now line s)"
  unfolding import_line_eq Let_def
  using getOrCreateDeckId_inv[OF assms] by (intro inv_createNote) simp_all

lemma inv_import_lines:
  "store_inv s \<Longrightarrow> store_inv (import_lines now ls s)"
  by (induction ls arbitrary: s) (simp_all add: inv_import_line)

lemma inv_importCSV:
  assumes "store_inv s"
  shows "store_inv (snd (importCSV now text s))"
  using assms by (simp add: importCSV_def inv_import_lines split: list.splits)

lemma upt_shift: "[n ..< n + Suc k] = n # [n + 1 ..< n + 1 + k]"
  by (simp add: upt_conv_Cons del: upt_Suc)

lemma import_decks_spec:
  "\<exists>new. db_decks (fst (import_decks now ds s m)) = db_decks s @ new
     \<and> map deck_id new = [next_deck s ..< next_deck s + length ds]
     \<and> db_notes (fst (import_decks now ds s m)) = db_notes s
     \<and> db_cards (fst (import_decks now ds s m)) = db_cards s
     \<and> next_deck (fst (import_decks now ds s m)) = next_deck s + length ds
     \<and> next_note (fst (import_decks now ds s m)) = next_note s
     \<and> next_card (fst (import_decks now ds s m)) = next_card s
     \<and> (\<forall>k \<in> sd_id ` set ds. \<exists>v. snd (import_decks now ds s m) k = Some v
            \<and> next_deck s \<le> v \<and> v < next_deck s + length ds)"
proof (induction ds arbitrary: s m)
  case Nil
  show ?case by simp
next
  case (Cons d ds)
  let ?d' = "\<lparr>deck_id = next_deck s, deck_name = sd_name d,
              deck_createdAt = date_or_now (sd_createdAt d) now\<rparr>"
  let ?s1 = "s\<lparr>db_decks := db_decks s @ [?d'], next_deck := next_deck s + 1\<rparr>"
  let ?m1 = "m(sd_id d \<mapsto> next_deck s)"
  have step: "import_decks now (d # ds) s m = import_decks now ds ?s1 ?m1"
    by (simp add: decks_add_def)
  obtain new where new: "db_decks (fst (import_decks now ds ?s1 ?m1)) = db_decks ?s1 @ new"
      "map deck_id new = [next_deck ?s1 ..< next_deck ?s1 + length ds]"
      "db_notes (fst (import_decks now ds ?s1 ?m1)) = db_notes ?s1"
      "db_cards (fst (import_decks now ds ?s1 ?m1)) = db_cards ?s1"
      "next_deck (fst (import_decks now ds ?s1 ?m1)) = next_deck ?s1 + length ds"
      "next_note (fst (import_decks now ds ?s1 ?m1)) = next_note ?s1"
      "next_card (fst (import_decks now ds ?s1 ?m1)) = next_card ?s1"
      "\<forall>k \<in> sd_id ` set ds. \<exists>v. snd (import_decks now ds ?s1 ?m1) k = Some v
            \<and> next_deck ?s1 \<le> v \<and> v < next_deck ?s1 + length ds"
    using Cons.IH[of ?s1 ?m1] by (elim exE conjE)
  have ids: "map deck_id (?d' # new) = [next_deck s ..< next_deck s + length (d # ds)]"
    using new(2) by (simp add: upt_conv_Cons del: upt_Suc)
  have keep: "snd (import_decks now ds s0 m0) k = m0 k" if "k \<notin> sd_id ` set ds" for k s0 m0
    using that by (induction ds arbitrary: s0 m0) (auto simp add: decks_add_def)
  have mp: "\<exists>v. snd (import_decks now ds ?s1 ?m1) k = Some v
            \<and> next_deck s \<le> v \<and> v < next_deck s + length (d # ds)"
    if k: "k \<in> sd_id ` set (d # ds)" for k
  proof (cases "k \<in> sd_id ` set ds")
    case True
    then obtain v where "snd (import_decks now ds ?s1 ?m1) k = Some v"
        "next_deck ?s1 \<le> v" "v < next_deck ?s1 + length ds"
      using new(8) by blast
    then show ?thesis by auto
  next
    case False
    then have "k = sd_id d" using k by simp
    then have "snd (import_decks now ds ?s1 ?m1) k = Some (next_deck s)"
      using keep[OF False, of ?s1 ?m1] by simp
    then show ?thesis by simp
  qed
  show ?case
    unfolding step
    apply (rule exI[of _ "?d' # new"])
    using new(1,3,4,5,6,7) ids mp by simp
qed

lemma import_notes_keep:
  "k \<notin> sn_id ` set ns \<Longrightarrow> snd (import_notes now dm ns s m) k = m k"
  by (induction ns arbitrary: s m) (auto simp add: notes_add_def)

lemma import_notes_spec:
  assumes "distinct (map sn_id ns)"
  shows "\<exists>new. db_notes (fst (import_notes now dm ns s m)) = db_notes s @ new
     \<and> map note_id new = [next_note s ..< next_note s + length ns]
     \<and> map (\<lambda>n'. (Some (note_id n'), note_deckId n')) new
         = map (\<lambda>n. (snd (import_notes now dm ns s m) (sn_id n), dm (sn_deckId n))) ns
     \<and> db_decks (fst (import_notes now dm ns s m)) = db_decks s
     \<and> db_cards (fst (import_notes now dm ns s m)) = db_cards s
     \<and> next_deck (fst (import_notes now dm ns s m)) = next_deck s
     \<and> next_note (fst (import_notes now dm ns s m)) = next_note s + length ns
     \<and> next_card (fst (import_notes now dm ns s m)) = next_card s"
  using assms
proof (induction ns arbitrary: s m)
  case Nil
  show ?case by simp
next
  case (Cons n ns)
  let ?n' = "\<lparr>note_id = next_note s, note_deckId = dm (sn_deckId n), note_fields = sn_fields n,
              note_createdAt = date_or_now (sn_createdAt n) now,
              note_updatedAt = date_or_now (sn_updatedAt n) now\<rparr>"
  let ?s1 = "s\<lparr>db_notes := db_notes s @ [?n'], next_note := next_note s + 1\<rparr>"
  let ?m1 = "m(sn_id n \<mapsto> next_note s)"
  let ?r = "import_notes now dm ns ?s1 ?m1"
  have step: "import_notes now dm (n # ns) s m = ?r"
    by (simp add: notes_add_def)
  have dist: "distinct (map sn_id ns)" and fresh: "sn_id n \<notin> sn_id ` set ns"
    using Cons.prems by simp_all
  obtain new where new: "db_notes (fst ?r) = db_notes ?s1 @ new"
      "map note_id new = [next_note ?s1 ..< next_note ?s1 + length ns]"
      "map (\<lambda>n'. (Some (note_id n'), note_deckId n')) new
         = map (\<lambda>n. (snd ?r (sn_id n), dm (sn_deckId n))) ns"
      "db_decks (fst ?r) = db_decks ?s1"
      "db_cards (fst ?r) = db_cards ?s1"
      "next_deck (fst ?r) = next_deck ?s1"
      "next_note (fst ?r) = next_note ?s1 + length ns"
      "next_card (fst ?r) = next_card ?s1"
    using Cons.IH[OF dist, of ?s1 ?m1] by (elim exE conjE)
  have ids: "map note_id (?n' # new) = [next_note s ..< next_note s + length (n # ns)]"
    using new(2) by (simp add: upt_conv_Cons del: upt_Suc)
  have hd: "snd ?r (sn_id n) = Some (next_note s)"
    using import_notes_keep[OF fresh, of now dm ?s1 ?m1] by simp
  have proj: "map (\<lambda>n'. (Some (note_id n'), note_deckId n')) (?n' # new)
         = map (\<lambda>n. (snd ?r (sn_id n), dm (sn_deckId n))) (n # ns)"
    using new(3) hd by simp
  show ?case
    unfolding step
    apply (rule exI[of _ "?n' # new"])
    using new(1,4,5,6,7,8) ids proj by simp
qed

lemma import_cards_spec:
  "\<exists>new. db_cards (import_cards now dm nm cs s) = db_cards s @ new
     \<and> map card_id new = [next_card s ..< next_card s + length cs]
     \<and> map (\<lambda>c'. (card_noteId c', card_deckId c')) new
         = map (\<lambda>c. (nm (sc_noteId c), dm (sc_deckId c))) cs
     \<and> db_decks (import_cards now dm nm cs s) = db_decks s
     \<and> db_notes (import_cards now dm nm cs s) = db_notes s
     \<and> next_deck (import_cards now dm nm cs s) = next_deck s
     \<and> next_note (import_cards now dm nm cs s) = next_note s
     \<and> next_card (import_cards now dm nm cs s) = next_card s + length cs"
proof (induction cs arbitrary: s)
  case Nil
  show ?case by simp
next
  case (Cons c cs)
  let ?c' = "\<lparr>due = Some (date_or_now (due c) now),
              interval = Some (nullish (interval c) 0),
              ease = Some (nullish (ease c) (5 / 2)),
              reps = Some (nullish (reps c) 0),
              lapses = Some (nullish (lapses c) 0),
              state = Some (nullish (state c) ''new''),
              card_id = next_card s,
              card_deckId = dm (sc_deckId c),
              card_noteId = nm (sc_noteId c)\<rparr>"
  let ?s1 = "s\<lparr>db_cards := db_cards s @ [?c'], next_card := next_card s + 1\<rparr>"
  let ?r = "import_cards now dm nm cs ?s1"
  have step: "import_cards now dm nm (c # cs) s = ?r"
    by (simp add: cards_add_def)
  obtain new where new: "db_cards ?r = db_cards ?s1 @ new"
      "map card_id new = [next_card ?s1 ..< next_card ?s1 + length cs]"
      "map (\<lambda>c'. (card_noteId c', card_deckId c')) new
         = map (\<lambda>c. (nm (sc_noteId c), dm (sc_deckId c))) cs"
      "db_decks ?r = db_decks ?s1"
      "db_notes ?r = db_notes ?s1"
      "next_deck ?r = next_deck ?s1"
      "next_note ?r = next_note ?s1"
      "next_card ?r = next_card ?s1 + length cs"
    using Cons.IH[of ?s1] by (elim exE conjE)
  have ids: "map card_id (?c' # new) = [next_card s ..< next_card s + length (c # cs)]"
    using new(2) by (simp add: upt_conv_Cons del: upt_Suc)
  have proj: "map (\<lambda>c'. (card_noteId c', card_deckId c')) (?c' # new)
         = map (\<lambda>c. (nm (sc_noteId c), dm (sc_deckId c))) (c # cs)"
    using new(3) by simp
  show ?case
    unfolding step
    apply (rule exI[of _ "?c' # new"])
    using new(1,4,5,6,7,8) ids proj by simp
qed

lemma distinct_append_fresh:
  fixes k :: "'a \<Rightarrow> nat"
  assumes "distinct (map k xs)" and "\<forall>x \<in> set xs. k x < n" and "map k ys = [n ..< n + a]"
  shows "distinct (map k (xs @ ys)) \<and> (\<forall>x \<in> set (xs @ ys). k x < n + a)"
proof -
  have d: "distinct (map k ys)" using assms(3) by simp
  have s: "k ` set ys = {n ..< n + a}"
    using assms(3) by (metis atLeastLessThan_upt set_map)
  have "k ` set xs \<inter> k ` set ys = {}"
    using assms(2) s by auto
  moreover have "\<forall>y \<in> set ys. k y < n + a" using s by auto
  ultimately show ?thesis using assms(1,2) d by auto
qed

lemma new_key_ge:
  fixes k :: "'a \<Rightarrow> nat"
  assumes "map k ys = [n ..< n + a]" and "y \<in> set ys"
  shows "n \<le> k y"
proof -
  have "k ` set ys = {n ..< n + a}"
    using assms(1) by (metis atLeastLessThan_upt set_map)
  then show ?thesis using assms(2) by auto
qed

lemma inv_append:
  assumes inv: "store_inv s"
    and td: "db_decks s3 = db_decks s @ nd" "map deck_id nd = [next_deck s ..< next_deck s + a]"
      "next_deck s3 = next_deck s + a"
    and tn: "db_notes s3 = db_notes s @ nn" "map note_id nn = [next_note s ..< next_note s + b]"
      "next_note s3 = next_note s + b"
    and tc: "db_cards s3 = db_cards s @ nc" "map card_id nc = [next_card s ..< next_card s + e]"
      "next_card s3 = next_card s + e"
    and nrefs: "\<forall>n' \<in> set nn. \<exists>d \<in> set nd. note_deckId n' = Some (deck_id d)"
    and crefs: "\<forall>c' \<in> set nc. \<exists>n' \<in> set nn.
                  card_noteId c' = Some (note_id n') \<and> card_deckId c' = note_deckId n'"
    and cone: "\<forall>n' \<in> set nn. length (filter (\<lambda>c'. card_noteId c' = Some (note_id n')) nc) = 1"
  shows "store_inv s3"
proof -
  have ids: "ids_ok s" and refs: "refs_ok s" and own: "owned_ok s" and one: "one_card s"
    using inv by (simp_all add: store_inv_def)
  have nlt: "\<forall>n \<in> set (db_notes s). note_id n < next_note s"
    and clt: "\<forall>c \<in> set (db_cards s). card_id c < next_card s"
    and dlt: "\<forall>d \<in> set (db_decks s). deck_id d < next_deck s"
    and dn: "distinct (map note_id (db_notes s))"
    and dc: "distinct (map card_id (db_cards s))"
    and dd: "distinct (map deck_id (db_decks s))"
    using ids by (simp_all add: ids_ok_def)
  have "ids_ok s3"
    unfolding ids_ok_def td(1,3) tn(1,3) tc(1,3)
    using distinct_append_fresh[OF dd dlt td(2)] distinct_append_fresh[OF dn nlt tn(2)]
      distinct_append_fresh[OF dc clt tc(2)]
    by blast
  moreover have ow: "\<exists>n \<in> set (db_notes s3). card_noteId c = Some (note_id n) \<and> card_deckId c = note_deckId n"
    if cin: "c \<in> set (db_cards s3)" for c
  proof (cases "c \<in> set (db_cards s)")
    case True
    then show ?thesis using owned_ok_card[OF own True] tn(1) by auto
  next
    case False
    then have "c \<in> set nc" using cin tc(1) by simp
    then show ?thesis using crefs tn(1) by auto
  qed
  moreover have "\<exists>d \<in> set (db_decks s3). note_deckId n = Some (deck_id d)"
    if nin: "n \<in> set (db_notes s3)" for n
  proof (cases "n \<in> set (db_notes s)")
    case True
    then show ?thesis using refs_ok_note[OF refs True] td(1) by auto
  next
    case False
    then have "n \<in> set nn" using nin tn(1) by simp
    then show ?thesis using nrefs td(1) by auto
  qed
  moreover have "length (filter (\<lambda>c. card_noteId c = Some (note_id n)) (db_cards s3)) = 1"
    if nin: "n \<in> set (db_notes s3)" for n
  proof (cases "n \<in> set (db_notes s)")
    case True
    have lt: "note_id n < next_note s" using nlt True by (rule bspec)
    have "card_noteId c' \<noteq> Some (note_id n)" if c': "c' \<in> set nc" for c'
    proof -
      obtain n' where n': "n' \<in> set nn" "card_noteId c' = Some (note_id n')"
        using crefs c' by blast
      have "next_note s \<le> note_id n'" using tn(2) n'(1) by (rule new_key_ge)
      then show ?thesis using n'(2) lt by simp
    qed
    then have "filter (\<lambda>c. card_noteId c = Some (note_id n)) nc = []"
      by (simp add: filter_empty_conv)
    then show ?thesis using one_card_note[OF one True] tc(1) by simp
  next
    case False
    then have n: "n \<in> set nn" using nin tn(1) by simp
    have ge: "next_note s \<le> note_id n" using tn(2) n by (rule new_key_ge)
    have "card_noteId c \<noteq> Some (note_id n)" if c: "c \<in> set (db_cards s)" for c
    proof -
      obtain n0 where n0: "n0 \<in> set (db_notes s)" "card_noteId c = Some (note_id n0)"
        using refs_ok_card[OF refs c] by (elim bexE)
      have "note_id n0 < next_note s" using nlt n0(1) by (rule bspec)
      then show ?thesis using n0(2) ge by simp
    qed
    then have "filter (\<lambda>c. card_noteId c = Some (note_id n)) (db_cards s) = []"
      by (simp add: filter_empty_conv)
    then show ?thesis using cone n tc(1) by simp
  qed
  ultimately show ?thesis
    unfolding store_inv_def refs_ok_def owned_ok_def one_card_def by blast
qed

lemma importJSON_ok_eq:
  assumes "snap_decks ob = Some ds" "snap_notes ob = Some ns" "snap_cards ob = Some cs"
  shows "importJSON now (Some ob) s =
     (Inr (), import_cards now (snd (import_decks now ds s Map.empty))
                (snd (import_notes now (snd (import_decks now ds s Map.empty)) ns
                        (fst (import_decks now ds s Map.empty)) Map.empty))
                cs
                (fst (import_notes now (snd (import_decks now ds s Map.empty)) ns
                        (fst (import_decks now ds s Map.empty)) Map.empty)))"
  using assms by (simp add: importJSON_def Let_def case_prod_beta)

lemma inv_importJSON_ok:
  assumes inv: "store_inv s"
    and keys: "snap_decks ob = Some ds" "snap_notes ob = Some ns" "snap_cards ob = Some cs"
    and c1: "\<forall>n \<in> set ns. \<exists>d \<in> set ds. sd_id d = sn_deckId n"
    and c2: "distinct (map sn_id ns)"
    and c3: "\<forall>c \<in> set cs. \<exists>n \<in> set ns. sn_id n = sc_noteId c \<and> sn_deckId n = sc_deckId c"
    and c4: "\<forall>n \<in> set ns. length (filter (\<lambda>c. sc_noteId c = sn_id n) cs) = 1"
  shows "store_inv (snd (importJSON now (Some ob) s))"
proof -
  define r1 where "r1 = import_decks now ds s Map.empty"
  define dm where "dm = snd r1"
  define r2 where "r2 = import_notes now dm ns (fst r1) Map.empty"
  define nm where "nm = snd r2"
  define s3 where "s3 = import_cards now dm nm cs (fst r2)"
  have res: "snd (importJSON now (Some ob) s) = s3"
    unfolding importJSON_ok_eq[OF keys] s3_def nm_def r2_def dm_def r1_def by simp
  obtain nd where nd: "db_decks (fst r1) = db_decks s @ nd"
      "map deck_id nd = [next_deck s ..< next_deck s + length ds]"
      "db_notes (fst r1) = db_notes s" "db_cards (fst r1) = db_cards s"
      "next_deck (fst r1) = next_deck s + length ds"
      "next_note (fst r1) = next_note s" "next_card (fst r1) = next_card s"
      "\<forall>k \<in> sd_id ` set ds. \<exists>v. dm k = Some v \<and> next_deck s \<le> v \<and> v < next_deck s + length ds"
    using import_decks_spec[of now ds s Map.empty] unfolding r1_def[symmetric] dm_def[symmetric]
    by (elim exE conjE)
  obtain nn where nn: "db_notes (fst r2) = db_notes (fst r1) @ nn"
      "map note_id nn = [next_note (fst r1) ..< next_note (fst r1) + length ns]"
      "map (\<lambda>n'. (Some (note_id n'), note_deckId n')) nn
         = map (\<lambda>n. (nm (sn_id n), dm (sn_deckId n))) ns"
      "db_decks (fst r2) = db_decks (fst r1)" "db_cards (fst r2) = db_cards (fst r1)"
      "next_deck (fst r2) = next_deck (fst r1)"
      "next_note (fst r2) = next_note (fst r1) + length ns"
      "next_card (fst r2) = next_card (fst r1)"
    using import_notes_spec[OF c2, of now dm "fst r1" Map.empty]
    unfolding r2_def[symmetric] nm_def[symmetric] by (elim exE conjE)
  obtain nc where nc: "db_cards s3 = db_cards (fst r2) @ nc"
      "map card_id nc = [next_card (fst r2) ..< next_card (fst r2) + length cs]"
      "map (\<lambda>c'. (card_noteId c', card_deckId c')) nc
         = map (\<lambda>c. (nm (sc_noteId c), dm (sc_deckId c))) cs"
      "db_decks s3 = db_decks (fst r2)" "db_notes s3 = db_notes (fst r2)"
      "next_deck s3 = next_deck (fst r2)" "next_note s3 = next_note (fst r2)"
      "next_card s3 = next_card (fst r2) + length cs"
    using import_cards_spec[of now dm nm cs "fst r2"] unfolding s3_def[symmetric]
    by (elim exE conjE)
  have nnset: "(\<lambda>n'. (Some (note_id n'), note_deckId n')) ` set nn
      = (\<lambda>n. (nm (sn_id n), dm (sn_deckId n))) ` set ns"
  proof -
    have "set (map (\<lambda>n'. (Some (note_id n'), note_deckId n')) nn)
        = set (map (\<lambda>n. (nm (sn_id n), dm (sn_deckId n))) ns)"
      using nn(3) by (rule arg_cong)
    then show ?thesis by (simp only: set_map)
  qed
  have ncset: "(\<lambda>c'. (card_noteId c', card_deckId c')) ` set nc
      = (\<lambda>c. (nm (sc_noteId c), dm (sc_deckId c))) ` set cs"
  proof -
    have "set (map (\<lambda>c'. (card_noteId c', card_deckId c')) nc)
        = set (map (\<lambda>c. (nm (sc_noteId c), dm (sc_deckId c))) cs)"
      using nc(3) by (rule arg_cong)
    then show ?thesis by (simp only: set_map)
  qed
  have nrefs: "\<forall>n' \<in> set nn. \<exists>d \<in> set nd. note_deckId n' = Some (deck_id d)"
  proof
    fix n' assume "n' \<in> set nn"
    then have "(Some (note_id n'), note_deckId n') \<in> (\<lambda>n. (nm (sn_id n), dm (sn_deckId n))) ` set ns"
      using nnset by blast
    then obtain n where n: "n \<in> set ns" "note_deckId n' = dm (sn_deckId n)" by auto
    obtain d where d: "d \<in> set ds" "sd_id d = sn_deckId n" using c1 n(1) by blast
    then obtain v where v: "dm (sn_deckId n) = Some v" "next_deck s \<le> v"
        "v < next_deck s + length ds"
      using nd(8) by (metis imageI)
    have "v \<in> set (map deck_id nd)" using v(2,3) nd(2) by simp
    then show "\<exists>d \<in> set nd. note_deckId n' = Some (deck_id d)"
      using n(2) v(1) by auto
  qed
  have crefs: "\<forall>c' \<in> set nc. \<exists>n' \<in> set nn.
                  card_noteId c' = Some (note_id n') \<and> card_deckId c' = note_deckId n'"
  proof
    fix c' assume "c' \<in> set nc"
    then have "(card_noteId c', card_deckId c') \<in> (\<lambda>c. (nm (sc_noteId c), dm (sc_deckId c))) ` set cs"
      using ncset by blast
    then obtain c where c: "c \<in> set cs" "card_noteId c' = nm (sc_noteId c)"
        "card_deckId c' = dm (sc_deckId c)" by auto
    obtain n where n: "n \<in> set ns" "sn_id n = sc_noteId c" "sn_deckId n = sc_deckId c"
      using c3 c(1) by blast
    have "(nm (sn_id n), dm (sn_deckId n)) \<in> (\<lambda>n'. (Some (note_id n'), note_deckId n')) ` set nn"
      using nnset n(1) by blast
    then obtain n' where "n' \<in> set nn" "nm (sn_id n) = Some (note_id n')"
        "dm (sn_deckId n) = note_deckId n'" by auto
    then show "\<exists>n' \<in> set nn. card_noteId c' = Some (note_id n') \<and> card_deckId c' = note_deckId n'"
      using c(2,3) n(2,3) by auto
  qed
  have nmids: "map (nm \<circ> sn_id) ns = map (Some \<circ> note_id) nn"
  proof -
    have "map fst (map (\<lambda>n'. (Some (note_id n'), note_deckId n')) nn)
        = map fst (map (\<lambda>n. (nm (sn_id n), dm (sn_deckId n))) ns)"
      using nn(3) by simp
    then show ?thesis by (simp add: comp_def)
  qed
  have inj: "inj_on nm (sn_id ` set ns)"
  proof -
    have "distinct (map note_id nn)" using nn(2) by simp
    then have "distinct (map (Some \<circ> note_id) nn)"
      by (simp add: distinct_map comp_inj_on_iff inj_on_def)
    then have "distinct (map nm (map sn_id ns))" unfolding map_map nmids .
    then have "inj_on nm (set (map sn_id ns))"
      by (rule distinct_map[THEN iffD1, THEN conjunct2])
    then show ?thesis by (simp only: set_map)
  qed
  have cone: "\<forall>n' \<in> set nn. length (filter (\<lambda>c'. card_noteId c' = Some (note_id n')) nc) = 1"
  proof
    fix n' assume "n' \<in> set nn"
    then have "(Some (note_id n'), note_deckId n') \<in> (\<lambda>n. (nm (sn_id n), dm (sn_deckId n))) ` set ns"
      using nnset by blast
    then obtain n where n: "n \<in> set ns" "nm (sn_id n) = Some (note_id n')" by auto
    have "length (filter (\<lambda>c'. card_noteId c' = Some (note_id n')) nc)
        = length (filter (\<lambda>p. fst p = Some (note_id n')) (map (\<lambda>c'. (card_noteId c', card_deckId c')) nc))"
      by (simp add: filter_map comp_def)
    also have "\<dots> = length (filter (\<lambda>c. nm (sc_noteId c) = Some (note_id n')) cs)"
      unfolding nc(3) by (simp add: filter_map comp_def)
    also have "\<dots> = length (filter (\<lambda>c. sc_noteId c = sn_id n) cs)"
    proof -
      have "(nm (sc_noteId c) = Some (note_id n')) = (sc_noteId c = sn_id n)" if c: "c \<in> set cs" for c
      proof -
        obtain n2 where n2: "n2 \<in> set ns" "sn_id n2 = sc_noteId c" using c3 c by blast
        have "(nm (sn_id n2) = nm (sn_id n)) = (sn_id n2 = sn_id n)"
          using inj n2(1) n(1) by (simp add: inj_on_eq_iff)
        then show ?thesis using n2(2) n(2) by simp
      qed
      then have "filter (\<lambda>c. nm (sc_noteId c) = Some (note_id n')) cs
          = filter (\<lambda>c. sc_noteId c = sn_id n) cs"
        by (intro filter_cong refl)
      then show ?thesis by simp
    qed
    also have "\<dots> = 1" using c4 n(1) by blast
    finally show "length (filter (\<lambda>c'. card_noteId c' = Some (note_id n')) nc) = 1" .
  qed
  have "store_inv s3"
  proof (rule inv_append[OF inv _ _ _ _ _ _ _ _ _ nrefs crefs cone])
    show "db_decks s3 = db_decks s @ nd" using nc(4) nn(4) nd(1) by simp
    show "map deck_id nd = [next_deck s ..< next_deck s + length ds]" by (rule nd(2))
    show "next_deck s3 = next_deck s + length ds" using nc(6) nn(6) nd(5) by simp
    show "db_notes s3 = db_notes s @ nn" using nc(5) nn(1) nd(3) by simp
    show "map note_id nn = [next_note s ..< next_note s + length ns]" using nn(2) nd(6) by simp
    show "next_note s3 = next_note s + length ns" using nc(7) nn(7) nd(6) by simp
    show "db_cards s3 = db_cards s @ nc" using nc(1) nn(5) nd(4) by simp
    show "map card_id nc = [next_card s ..< next_card s + length cs]" using nc(2) nn(8) nd(7) by simp
    show "next_card s3 = next_card s + length cs" using nc(8) nn(8) nd(7) by simp
  qed
  then show ?thesis using res by simp
qed

lemma inv_importJSON:
  assumes inv: "store_inv s"
    and ok: "case obj of None \<Rightarrow> True | Some ob \<Rightarrow> snapshot_consistent ob"
  shows "store_inv (snd (importJSON now obj s))"
proof (cases obj)
  case None
  then show ?thesis using inv by (simp add: importJSON_def)
next
  case (Some ob)
  show ?thesis
  proof (cases "snap_decks ob = None \<or> snap_notes ob = None \<or> snap_cards ob = None")
    case True
    then have "importJSON now obj s = (Inl (Error ''Invalid JSON format''), s)"
      using Some by (auto simp add: importJSON_def split: option.splits)
    then show ?thesis using inv by simp
  next
    case False
    then obtain ds ns cs where keys: "snap_decks ob = Some ds" "snap_notes ob = Some ns"
        "snap_cards ob = Some cs" by auto
    have c: "snapshot_consistent ob" using ok Some by simp
    show ?thesis
      unfolding Some
      using c keys unfolding snapshot_consistent_def
      by (intro inv_importJSON_ok[OF inv keys]) simp_all
  qed
qed

lemma inv_empty_store: "store_inv empty_store"
  by (simp add: store_inv_def ids_ok_def refs_ok_def owned_ok_def one_card_def empty_store_def)

lemma inv_apply_op:
  assumes "store_inv s" and "op_keeps_refs s x"
  shows "store_inv (apply_op x s)"
proof (cases x)
  case (CreateDeck now name)
  then show ?thesis using assms(1) by (simp add: inv_createDeck)
next
  case (RenameDeck ident name)
  then show ?thesis using assms(1) by (simp add: inv_renameDeck)
next
  case (DeleteDeck ident)
  then show ?thesis using assms(1) by (simp add: inv_deleteDeck)
next
  case (CreateNote now deckId flds)
  then show ?thesis using assms by (simp add: inv_createNote)
next
  case (UpdateNote now noteId flds)
  then show ?thesis using assms(1) by (simp add: inv_updateNote)
next
  case (DeleteNote noteId)
  then show ?thesis using assms(1) by (simp add: inv_deleteNote)
next
  case (UpdateCard cardId p)
  then show ?thesis using assms by (simp add: inv_updateCard)
next
  case (ImportJSON now obj)
  then show ?thesis using assms by (simp add: inv_importJSON)
next
  case (ImportCSV now csv)
  then show ?thesis using assms(1) by (simp add: inv_importCSV)
qed

lemma inv_run:
  "store_inv s \<Longrightarrow> all_keep_refs s xs \<Longrightarrow> store_inv (run xs s)"
  by (induction xs arbitrary: s) (simp_all add: inv_apply_op)

lemma deleteNote_fields:
  "db_decks (deleteNote noteId s) = db_decks s"
  "db_notes (deleteNote noteId s) = filter (\<lambda>n. note_id n \<noteq> noteId) (db_notes s)"
  "db_cards (deleteNote noteId s) = filter (\<lambda>c. card_noteId c \<noteq> Some noteId) (db_cards s)"
  by (simp_all add: deleteNote_def Let_def)

lemma length_filter_split:
  "length xs = length (filter (\<lambda>x. \<not> P x) xs) + length (filter P xs)"
  using sum_length_filter_compl[of P xs] by simp

text \<open>
  C4, as amended. Take any sequence of store operations, started on the empty store, in
  which every \<open>createNote\<close> names a deck the store has at that moment, every
  \<open>updateCard\<close> patch leaves \<open>deckId\<close> and \<open>noteId\<close> alone, and every \<open>importJSON\<close>
  snapshot is rejected or consistent in itself. In the store it reaches, every card's
  \<open>noteId\<close> is a note's id and every note's \<open>deckId\<close> is a deck's id, and the same
  holds after a further \<open>deleteDeck\<close> or \<open>deleteNote\<close>; \<open>deleteDeck(id)\<close> on a deck
  with N notes removes N notes and N cards, the cards removed being the cards of the
  notes removed. In any store at all, \<open>deleteDeck(id)\<close> keeps exactly the decks, notes
  and cards whose id or \<open>deckId\<close> is not \<open>id\<close>, so that no note and no card with
  \<open>deckId = id\<close> remains, and after \<open>deleteNote(noteId)\<close> no card with that
  \<open>noteId\<close> and no note with that id remains.
\<close>

theorem referential_integrity_kept:
  assumes "all_keep_refs empty_store ops"
  shows "refs_ok (run ops empty_store)
    \<and> length (db_notes (run ops empty_store))
        = length (db_notes (deleteDeck ident (run ops empty_store)))
          + length (filter (\<lambda>n. note_deckId n = Some ident) (db_notes (run ops empty_store)))
    \<and> length (db_cards (run ops empty_store))
        = length (db_cards (deleteDeck ident (run ops empty_store)))
          + length (filter (\<lambda>n. note_deckId n = Some ident) (db_notes (run ops empty_store)))
    \<and> (\<forall>c \<in> set (db_cards (run ops empty_store)).
          (c \<notin> set (db_cards (deleteDeck ident (run ops empty_store))))
          = (\<exists>n \<in> set (db_notes (run ops empty_store)).
               n \<notin> set (db_notes (deleteDeck ident (run ops empty_store)))
               \<and> card_noteId c = Some (note_id n)))
    \<and> refs_ok (deleteDeck ident (run ops empty_store))
    \<and> refs_ok (deleteNote noteId (run ops empty_store))
    \<and> db_notes (deleteDeck ident t) = filter (\<lambda>n. note_deckId n \<noteq> Some ident) (db_notes t)
    \<and> db_cards (deleteDeck ident t) = filter (\<lambda>c. card_deckId c \<noteq> Some ident) (db_cards t)
    \<and> db_decks (deleteDeck ident t) = filter (\<lambda>d. deck_id d \<noteq> ident) (db_decks t)
    \<and> (\<forall>n \<in> set (db_notes (deleteDeck ident t)). note_deckId n \<noteq> Some ident)
    \<and> (\<forall>c \<in> set (db_cards (deleteDeck ident t)). card_deckId c \<noteq> Some ident)
    \<and> (\<forall>c \<in> set (db_cards (deleteNote noteId t)). card_noteId c \<noteq> Some noteId)
    \<and> (\<forall>n \<in> set (db_notes (deleteNote noteId t)). note_id n \<noteq> noteId)"
proof -
  let ?s = "run ops empty_store"
  have inv: "store_inv ?s"
    using inv_empty_store assms by (rule inv_run)
  have ids: "ids_ok ?s" and own: "owned_ok ?s"
    using inv by (simp_all add: store_inv_def)
  have r0: "refs_ok ?s" using inv by (simp add: store_inv_def)
  have r1: "refs_ok (deleteDeck ident ?s)"
    using inv_deleteDeck[OF inv, of ident] by (simp add: store_inv_def)
  have r2: "refs_ok (deleteNote noteId ?s)"
    using inv_deleteNote[OF inv, of noteId] by (simp add: store_inv_def)
  have n: "length (db_notes ?s) = length (db_notes (deleteDeck ident ?s))
          + length (filter (\<lambda>n. note_deckId n = Some ident) (db_notes ?s))"
    unfolding deleteDeck_fields by (rule length_filter_split)
  have c: "length (db_cards ?s) = length (db_cards (deleteDeck ident ?s))
          + length (filter (\<lambda>n. note_deckId n = Some ident) (db_notes ?s))"
    unfolding deleteDeck_fields deck_cards_count[OF inv, symmetric] by (rule length_filter_split)
  have which: "(c \<notin> set (db_cards (deleteDeck ident ?s)))
          = (\<exists>n \<in> set (db_notes ?s). n \<notin> set (db_notes (deleteDeck ident ?s))
               \<and> card_noteId c = Some (note_id n))"
    if cin: "c \<in> set (db_cards ?s)" for c
  proof
    assume "c \<notin> set (db_cards (deleteDeck ident ?s))"
    then have cd: "card_deckId c = Some ident" using cin by (simp add: deleteDeck_fields)
    obtain n where n: "n \<in> set (db_notes ?s)" "card_noteId c = Some (note_id n)"
        "card_deckId c = note_deckId n"
      using owned_ok_card[OF own cin] by (elim bexE conjE)
    have "n \<notin> set (db_notes (deleteDeck ident ?s))"
      using n(3) cd by (simp add: deleteDeck_fields)
    then show "\<exists>n \<in> set (db_notes ?s). n \<notin> set (db_notes (deleteDeck ident ?s))
               \<and> card_noteId c = Some (note_id n)"
      using n(1,2) by blast
  next
    assume "\<exists>n \<in> set (db_notes ?s). n \<notin> set (db_notes (deleteDeck ident ?s))
               \<and> card_noteId c = Some (note_id n)"
    then obtain n where n: "n \<in> set (db_notes ?s)" "n \<notin> set (db_notes (deleteDeck ident ?s))"
        "card_noteId c = Some (note_id n)" by blast
    have "note_deckId n = Some ident" using n(1,2) by (simp add: deleteDeck_fields)
    then have "card_deckId c = Some ident"
      using card_of_note_deck[OF ids own n(1) cin n(3)] by simp
    then show "c \<notin> set (db_cards (deleteDeck ident ?s))" by (simp add: deleteDeck_fields)
  qed
  have t: "db_notes (deleteDeck ident t) = filter (\<lambda>n. note_deckId n \<noteq> Some ident) (db_notes t)"
    "db_cards (deleteDeck ident t) = filter (\<lambda>c. card_deckId c \<noteq> Some ident) (db_cards t)"
    "db_decks (deleteDeck ident t) = filter (\<lambda>d. deck_id d \<noteq> ident) (db_decks t)"
    "\<forall>n \<in> set (db_notes (deleteDeck ident t)). note_deckId n \<noteq> Some ident"
    "\<forall>c \<in> set (db_cards (deleteDeck ident t)). card_deckId c \<noteq> Some ident"
    "\<forall>c \<in> set (db_cards (deleteNote noteId t)). card_noteId c \<noteq> Some noteId"
    "\<forall>n \<in> set (db_notes (deleteNote noteId t)). note_id n \<noteq> noteId"
    by (simp_all add: deleteDeck_fields deleteNote_fields)
  show ?thesis
    using r0 n c which r1 r2 t by blast
qed

theorem referential_integrity_kept_witness:
  "all_keep_refs empty_store two_decks
   \<and> refs_ok (run two_decks empty_store)
   \<and> length (db_notes (run two_decks empty_store)) = 3
   \<and> length (db_cards (run two_decks empty_store)) = 3
   \<and> length (db_notes (deleteDeck 1 (run two_decks empty_store))) = 1
   \<and> length (db_cards (deleteDeck 1 (run two_decks empty_store))) = 1
   \<and> refs_ok (deleteDeck 1 (run two_decks empty_store))
   \<and> refs_ok (deleteNote 3 (run two_decks empty_store))"
proof -
  let ?S = "run two_decks empty_store"
  have a: "all_keep_refs empty_store two_decks"
    by code_simp
  have l1: "length (filter (\<lambda>n. note_deckId n = Some 1) (db_notes ?S)) = 2"
    by code_simp
  have l2: "length (db_notes ?S) = 3"
    by code_simp
  have l3: "length (db_cards ?S) = 3"
    by code_simp
  note T = referential_integrity_kept[OF a, of 1 3 empty_store]
  have r0: "refs_ok ?S" using T by (rule conjunct1)
  have n: "length (db_notes ?S) = length (db_notes (deleteDeck 1 ?S))
      + length (filter (\<lambda>n. note_deckId n = Some 1) (db_notes ?S))"
    using T[THEN conjunct2] by (rule conjunct1)
  have c: "length (db_cards ?S) = length (db_cards (deleteDeck 1 ?S))
      + length (filter (\<lambda>n. note_deckId n = Some 1) (db_notes ?S))"
    using T[THEN conjunct2, THEN conjunct2] by (rule conjunct1)
  have r1: "refs_ok (deleteDeck 1 ?S)"
    using T[THEN conjunct2, THEN conjunct2, THEN conjunct2, THEN conjunct2] by (rule conjunct1)
  have r2: "refs_ok (deleteNote 3 ?S)"
    using T[THEN conjunct2, THEN conjunct2, THEN conjunct2, THEN conjunct2, THEN conjunct2]
    by (rule conjunct1)
  have n1: "length (db_notes (deleteDeck 1 ?S)) = 1" using n l1 l2 by linarith
  have c1: "length (db_cards (deleteDeck 1 ?S)) = 1" using c l1 l3 by linarith
  show ?thesis
    using a r0 l2 l3 n1 c1 r1 r2 by (intro conjI)
qed

text \<open>
  C4. The claim: in every reachable store state every card's \<open>noteId\<close> is the id of a
  note and every note's \<open>deckId\<close> is the id of a deck. \<open>createNote\<close> does not look
  at the decks: on the empty store, \<open>createNote(7, ...)\<close> leaves a note whose \<open>deckId\<close>
  is no deck's id.
\<close>

theorem dangling_deck_counterexample:
  "\<not> refs_ok (run [CreateNote 0 7 \<lparr>f_front = Some ''q'', f_back = Some ''a''\<rparr>] empty_store)"
  by code_simp

section \<open>The CSV round trip\<close>

lemma split_cells_Cons:
  "split_cells cur inQ parts (ch # rest) =
    (if ch = dq \<and> rest \<noteq> [] \<and> hd rest = dq then split_cells (cur @ [dq]) inQ parts (tl rest)
     else if ch = dq then split_cells cur (\<not> inQ) parts rest
     else if ch = comma \<and> \<not> inQ then split_cells [] inQ (parts @ [cur]) rest
     else split_cells (cur @ [ch]) inQ parts rest)"
  by (cases rest) simp_all

lemma scan_quoted:
  assumes "rest = [] \<or> hd rest \<noteq> dq"
  shows "split_cells cur True parts (double_quotes v @ dq # rest) = split_cells (cur @ v) False parts rest"
  using assms
proof (induction v arbitrary: cur)
  case Nil
  then show ?case by (auto simp add: split_cells_Cons)
next
  case (Cons c v)
  show ?case
  proof (cases "c = dq")
    case True
    then show ?thesis using Cons.IH[OF Cons.prems, of "cur @ [dq]"]
      by (simp add: split_cells_Cons)
  next
    case False
    have ne: "double_quotes v @ dq # rest \<noteq> []" by simp
    have "split_cells cur True parts (c # (double_quotes v @ dq # rest))
        = split_cells (cur @ [c]) True parts (double_quotes v @ dq # rest)"
      using False by (simp only: split_cells_Cons) simp
    then show ?thesis using False Cons.IH[OF Cons.prems, of "cur @ [c]"] by simp
  qed
qed

lemma scan_cell:
  assumes "rest = [] \<or> hd rest \<noteq> dq"
  shows "split_cells cur False parts (dq # double_quotes v @ dq # rest)
       = split_cells (cur @ raw_cell v) False parts rest"
  using assms
proof (induction v arbitrary: cur)
  case Nil
  then show ?case by (simp add: split_cells_Cons raw_cell_def)
next
  case (Cons c v)
  show ?case
  proof (cases "c = dq")
    case True
    have r: "raw_cell (c # v) = dq # raw_cell v" using True by (simp add: raw_cell_def)
    have "split_cells cur False parts (dq # double_quotes (c # v) @ dq # rest)
        = split_cells (cur @ [dq]) False parts (dq # double_quotes v @ dq # rest)"
      using True by (simp add: split_cells_Cons)
    then show ?thesis using Cons.IH[OF Cons.prems, of "cur @ [dq]"] r by simp
  next
    case False
    have r: "raw_cell (c # v) = c # v" using False by (auto simp add: raw_cell_def)
    have "split_cells cur False parts (dq # double_quotes (c # v) @ dq # rest)
        = split_cells cur True parts (double_quotes (c # v) @ dq # rest)"
      using False by (simp add: split_cells_Cons)
    then show ?thesis using scan_quoted[OF Cons.prems, of cur parts "c # v"] r by simp
  qed
qed

lemma dq_not_space: "\<not> is_space dq"
  by (simp add: is_space_def)

lemma parseCell_raw:
  assumes "cell_ok v"
  shows "parseCell (raw_cell v) = v"
proof (cases "v = []")
  case True
  have "trim [dq] = [dq]" by (simp add: trim_def dq_not_space)
  then show ?thesis using True by (simp add: raw_cell_def parseCell_def)
next
  case False
  have nq: "\<not> (hd v = dq \<and> last v = dq)" using assms False by (simp add: cell_ok_def)
  have "\<not> (\<forall>c \<in> set v. c = dq)"
  proof
    assume a: "\<forall>c \<in> set v. c = dq"
    have "hd v \<in> set v" "last v \<in> set v" using False by simp_all
    then show False using a nq by blast
  qed
  then have r: "raw_cell v = v" by (simp add: raw_cell_def)
  have t: "trim v = v" using assms by (simp add: cell_ok_def)
  show ?thesis unfolding r parseCell_def Let_def t using nq False by auto
qed

lemma scan_row:
  "split_cells [] False [] (join '','' (map escape [Some d, Some f, Some b]))
     = [raw_cell d, raw_cell f, raw_cell b]"
proof -
  let ?r3 = "[] :: string"
  let ?r2 = "comma # dq # double_quotes b @ dq # ?r3"
  let ?r1 = "comma # dq # double_quotes f @ dq # ?r2"
  have j: "join '','' (map escape [Some d, Some f, Some b]) = dq # double_quotes d @ dq # ?r1"
    by (simp add: escape_def nullish_def)
  have s1: "split_cells [] False [] (dq # double_quotes d @ dq # ?r1)
      = split_cells ([] @ raw_cell d) False [] ?r1"
    by (rule scan_cell) simp
  have c1: "split_cells ([] @ raw_cell d) False [] ?r1
      = split_cells [] False [raw_cell d] (dq # double_quotes f @ dq # ?r2)"
    by (simp only: split_cells_Cons) simp
  have s2: "split_cells [] False [raw_cell d] (dq # double_quotes f @ dq # ?r2)
      = split_cells ([] @ raw_cell f) False [raw_cell d] ?r2"
    by (rule scan_cell) simp
  have c2: "split_cells ([] @ raw_cell f) False [raw_cell d] ?r2
      = split_cells [] False [raw_cell d, raw_cell f] (dq # double_quotes b @ dq # ?r3)"
    by (simp only: split_cells_Cons) simp
  have s3: "split_cells [] False [raw_cell d, raw_cell f] (dq # double_quotes b @ dq # ?r3)
      = split_cells ([] @ raw_cell b) False [raw_cell d, raw_cell f] ?r3"
    by (rule scan_cell) simp
  show ?thesis unfolding j s1 c1 s2 c2 s3 by simp
qed

lemma cells_of_row:
  assumes "cell_ok d" "cell_ok f" "cell_ok b"
  shows "map parseCell (split_cells [] False [] (join '','' (map escape [Some d, Some f, Some b])))
       = [d, f, b]"
  unfolding scan_row using assms by (simp add: parseCell_raw)

lemma split_lines_Cons:
  "split_lines cur (c # cs) =
    (if c = cr \<and> cs \<noteq> [] \<and> hd cs = lf then cur # split_lines [] (tl cs)
     else if c = lf then cur # split_lines [] cs
     else split_lines (cur @ [c]) cs)"
  by (cases cs) simp_all

lemma split_lines_last:
  "lf \<notin> set l \<Longrightarrow> split_lines cur l = [cur @ l]"
proof (induction l arbitrary: cur)
  case Nil
  show ?case by simp
next
  case (Cons c l)
  have "l \<noteq> [] \<Longrightarrow> hd l \<noteq> lf" using Cons.prems by (cases l) auto
  then show ?case using Cons by (auto simp add: split_lines_Cons)
qed

lemma split_lines_line:
  assumes "lf \<notin> set l" and "l = [] \<or> last l \<noteq> cr"
  shows "split_lines cur (l @ lf # rest) = (cur @ l) # split_lines [] rest"
  using assms
proof (induction l arbitrary: cur)
  case Nil
  show ?case by (simp add: split_lines_Cons)
next
  case (Cons c l)
  have c: "c \<noteq> lf" and l: "lf \<notin> set l" using Cons.prems(1) by auto
  have l2: "l = [] \<or> last l \<noteq> cr" using Cons.prems(2) by auto
  have nocr: "\<not> (c = cr \<and> hd (l @ lf # rest) = lf)"
  proof (cases l)
    case Nil
    then show ?thesis using Cons.prems(2) by simp
  next
    case (Cons a as)
    then show ?thesis using l by auto
  qed
  have "split_lines cur ((c # l) @ lf # rest) = split_lines (cur @ [c]) (l @ lf # rest)"
    using c nocr by (auto simp add: split_lines_Cons)
  then show ?case using Cons.IH[OF l l2, of "cur @ [c]"] by simp
qed

lemma split_lines_join:
  assumes "\<forall>x \<in> set (l # ls). lf \<notin> set x \<and> (x = [] \<or> last x \<noteq> cr)"
  shows "split_lines cur (join [lf] (l # ls)) = (cur @ l) # ls"
  using assms
proof (induction ls arbitrary: l cur)
  case Nil
  then show ?case by (simp add: split_lines_last)
next
  case (Cons l2 ls)
  have a: "lf \<notin> set l" "l = [] \<or> last l \<noteq> cr" using Cons.prems by simp_all
  have b: "\<forall>x \<in> set (l2 # ls). lf \<notin> set x \<and> (x = [] \<or> last x \<noteq> cr)"
    using Cons.prems by simp
  have "split_lines cur (join [lf] (l # l2 # ls)) = (cur @ l) # split_lines [] (join [lf] (l2 # ls))"
    using split_lines_line[OF a, of cur "join [lf] (l2 # ls)"] by simp
  then show ?case using Cons.IH[OF b, of "[]"] by simp
qed

lemma exportCSV_lines:
  "exportCSV s = join [lf] (''deckName,front,back'' # map row_line (map (note_row (db_decks s)) (db_notes s)))"
  by (simp add: exportCSV_def objectsToCSV_def row_line_def Let_def comp_def)

lemma set_double_quotes: "set (double_quotes v) \<subseteq> insert dq (set v)"
  by (induction v) auto

lemma row_line_shape:
  "row_line r = dq # double_quotes (nullish (deckName r) []) @ dq # comma # dq
      # double_quotes (nullish (front r) []) @ dq # comma # dq
      # double_quotes (nullish (back_text r) []) @ [dq]"
  by (simp add: row_line_def escape_def)

lemma row_line_ok:
  assumes "row_ok r"
  shows "lf \<notin> set (row_line r) \<and> row_line r \<noteq> [] \<and> last (row_line r) \<noteq> cr"
proof -
  have "lf \<notin> set (nullish (deckName r) [])" "lf \<notin> set (nullish (front r) [])"
    "lf \<notin> set (nullish (back_text r) [])"
    using assms by (simp_all add: row_ok_def cell_ok_def)
  then have "lf \<notin> set (double_quotes (nullish (deckName r) []))"
    "lf \<notin> set (double_quotes (nullish (front r) []))"
    "lf \<notin> set (double_quotes (nullish (back_text r) []))"
    using set_double_quotes by fastforce+
  then show ?thesis unfolding row_line_shape by simp
qed

lemma importCSV_export:
  assumes "\<forall>n \<in> set (db_notes s). row_ok (note_row (db_decks s) n)"
  shows "importCSV now (exportCSV s) t
       = (Inr (), import_lines now (map row_line (map (note_row (db_decks s)) (db_notes s))) t)"
proof -
  let ?rows = "map row_line (map (note_row (db_decks s)) (db_notes s))"
  have rows: "\<forall>x \<in> set ?rows. lf \<notin> set x \<and> x \<noteq> [] \<and> last x \<noteq> cr"
    using assms row_line_ok by auto
  then have all: "\<forall>x \<in> set (''deckName,front,back'' # ?rows). lf \<notin> set x \<and> (x = [] \<or> last x \<noteq> cr)"
    by auto
  have sp: "split_lines [] (exportCSV s) = ''deckName,front,back'' # ?rows"
    unfolding exportCSV_lines using split_lines_join[OF all, of "[]"] by simp
  have ne: "filter (\<lambda>l. l \<noteq> []) ?rows = ?rows"
    using rows by (simp add: filter_id_conv)
  have hd: "header_regex_test (toLowerCase (filter (\<lambda>c. c \<noteq> dq) ''deckName,front,back''))"
    by (simp add: header_regex_test_def toLowerCase_def lower_char_def is_upper_def char_of_eq_iff)
  show ?thesis
    unfolding importCSV_def sp using ne hd by simp
qed

lemma deckById_member:
  assumes "distinct (map deck_id ds)" and "dk \<in> set ds"
  shows "deckById ds (Some (deck_id dk)) = Some dk"
proof -
  let ?xs = "rev (map (\<lambda>d. (deck_id d, d)) ds)"
  have "map fst ?xs = rev (map deck_id ds)" by (simp add: rev_map comp_def)
  then have d: "distinct (map fst ?xs)" using assms(1) by simp
  have "(deck_id dk, dk) \<in> set ?xs" using assms(2) by auto
  then have "map_of ?xs (deck_id dk) = Some dk" using d by simp
  then show ?thesis by (simp add: deckById_def)
qed

lemma getOrCreateDeckId_row:
  assumes ok: "deck_ids_ok t"
  shows "deck_ids_ok (snd (getOrCreateDeckId now d t))
     \<and> (\<exists>ext. db_decks (snd (getOrCreateDeckId now d t)) = db_decks t @ ext)
     \<and> (\<exists>dk \<in> set (db_decks (snd (getOrCreateDeckId now d t))).
           deck_id dk = fst (getOrCreateDeckId now d t) \<and> deck_name dk = Some d)
     \<and> db_notes (snd (getOrCreateDeckId now d t)) = db_notes t
     \<and> db_cards (snd (getOrCreateDeckId now d t)) = db_cards t
     \<and> next_note (snd (getOrCreateDeckId now d t)) = next_note t
     \<and> next_card (snd (getOrCreateDeckId now d t)) = next_card t"
proof (cases "find (\<lambda>x. deck_name x = Some d) (db_decks t)")
  case None
  then have e: "getOrCreateDeckId now d t = createDeck now d t"
    by (simp add: getOrCreateDeckId_def)
  have "distinct (map deck_id (db_decks t))" "\<forall>x \<in> set (db_decks t). deck_id x < next_deck t"
    using ok by (simp_all add: deck_ids_ok_def)
  then have "deck_ids_ok (snd (createDeck now d t))"
    unfolding deck_ids_ok_def createDeck_eq by (auto simp add: less_Suc_eq)
  then show ?thesis unfolding e by (simp add: createDeck_eq)
next
  case (Some dk)
  then have e: "getOrCreateDeckId now d t = (deck_id dk, t)"
    by (simp add: getOrCreateDeckId_def)
  have "dk \<in> set (db_decks t) \<and> deck_name dk = Some d" using find_in_set[OF Some] .
  then show ?thesis unfolding e using ok by auto
qed

lemma import_line_row:
  assumes ok: "deck_ids_ok t" and r: "row_ok r"
  shows "\<exists>n' c' dk ext.
       db_notes (import_line now (row_line r) t) = db_notes t @ [n']
     \<and> db_cards (import_line now (row_line r) t) = db_cards t @ [c']
     \<and> db_decks (import_line now (row_line r) t) = db_decks t @ ext
     \<and> deck_ids_ok (import_line now (row_line r) t)
     \<and> dk \<in> set (db_decks (import_line now (row_line r) t))
     \<and> deck_name dk = Some (nullish (deckName r) [])
     \<and> note_deckId n' = Some (deck_id dk)
     \<and> note_fields n' = Some \<lparr>f_front = Some (nullish (front r) []),
                               f_back = Some (nullish (back_text r) [])\<rparr>
     \<and> card_noteId c' = Some (note_id n')
     \<and> due c' = Some now \<and> interval c' = Some 0 \<and> ease c' = Some (5 / 2)
     \<and> reps c' = Some 0 \<and> lapses c' = Some 0 \<and> state c' = Some ''new''"
proof -
  let ?d = "nullish (deckName r) []" and ?f = "nullish (front r) []"
  let ?b = "nullish (back_text r) []"
  have cok: "cell_ok ?d" "cell_ok ?f" "cell_ok ?b" and dne: "?d \<noteq> []"
    using r by (simp_all add: row_ok_def)
  have line: "row_line r = join '','' (map escape [Some ?d, Some ?f, Some ?b])"
    by (simp add: row_line_def escape_def nullish_def)
  have cells: "map parseCell (split_cells [] False [] (row_line r)) = [?d, ?f, ?b]"
    unfolding line using cok by (rule cells_of_row)
  let ?g = "getOrCreateDeckId now ?d t"
  let ?flds = "\<lparr>f_front = Some ?f, f_back = Some ?b\<rparr>"
  have il: "import_line now (row_line r) t = snd (createNote now (fst ?g) ?flds (snd ?g))"
    unfolding import_line_eq Let_def cells using dne by (simp add: cell_or_def)
  obtain ext dk where g: "deck_ids_ok (snd ?g)" "db_decks (snd ?g) = db_decks t @ ext"
      "dk \<in> set (db_decks (snd ?g))" "deck_id dk = fst ?g" "deck_name dk = Some ?d"
      "db_notes (snd ?g) = db_notes t" "db_cards (snd ?g) = db_cards t"
    using getOrCreateDeckId_row[OF ok, of now ?d] by (elim conjE exE bexE)
  let ?n' = "\<lparr>note_id = next_note (snd ?g), note_deckId = Some (fst ?g), note_fields = Some ?flds,
              note_createdAt = now, note_updatedAt = now\<rparr>"
  let ?c' = "\<lparr>due = Some now, interval = Some 0, ease = Some (5 / 2), reps = Some 0,
              lapses = Some 0, state = Some ''new'', card_id = next_card (snd ?g),
              card_deckId = Some (fst ?g), card_noteId = Some (next_note (snd ?g))\<rparr>"
  have "db_notes (import_line now (row_line r) t) = db_notes t @ [?n']"
    and "db_cards (import_line now (row_line r) t) = db_cards t @ [?c']"
    and "db_decks (import_line now (row_line r) t) = db_decks t @ ext"
    and "deck_ids_ok (import_line now (row_line r) t)"
    and "dk \<in> set (db_decks (import_line now (row_line r) t))"
    using g unfolding il by (simp_all add: createNote_fields deck_ids_ok_def)
  moreover have "note_deckId ?n' = Some (deck_id dk)" using g(4) by simp
  ultimately show ?thesis
    using g(5) by (intro exI[of _ ?n'] exI[of _ ?c'] exI[of _ dk] exI[of _ ext]) simp
qed

lemma note_row_imported:
  assumes "deck_ids_ok T" and "dk \<in> set (db_decks T)" and "deck_name dk = Some d"
    and "note_deckId n = Some (deck_id dk)"
    and "note_fields n = Some \<lparr>f_front = Some f, f_back = Some b\<rparr>"
  shows "note_row (db_decks T) n = \<lparr>deckName = Some d, front = Some f, back_text = Some b\<rparr>"
proof -
  have "deckById (db_decks T) (Some (deck_id dk)) = Some dk"
    using assms(1,2) by (intro deckById_member) (simp_all add: deck_ids_ok_def)
  then show ?thesis using assms(3,4,5) by (simp add: note_row_def nullish_def)
qed

lemma import_rows:
  assumes "deck_ids_ok t" and "\<forall>r \<in> set rs. row_ok r"
  shows "\<exists>new newc ext.
       db_notes (import_lines now (map row_line rs) t) = db_notes t @ new
     \<and> db_cards (import_lines now (map row_line rs) t) = db_cards t @ newc
     \<and> db_decks (import_lines now (map row_line rs) t) = db_decks t @ ext
     \<and> deck_ids_ok (import_lines now (map row_line rs) t)
     \<and> map (note_row (db_decks (import_lines now (map row_line rs) t))) new = map norm_row rs
     \<and> map card_noteId newc = map (\<lambda>n. Some (note_id n)) new
     \<and> (\<forall>c \<in> set newc. due c = Some now \<and> interval c = Some 0 \<and> ease c = Some (5 / 2)
            \<and> reps c = Some 0 \<and> lapses c = Some 0 \<and> state c = Some ''new'')"
  using assms
proof (induction rs arbitrary: t)
  case Nil
  then show ?case by simp
next
  case (Cons r rs)
  let ?t1 = "import_line now (row_line r) t"
  let ?T = "import_lines now (map row_line rs) ?t1"
  have r: "row_ok r" and rs: "\<forall>r \<in> set rs. row_ok r" using Cons.prems(2) by simp_all
  obtain n' c' dk ext1 where l: "db_notes ?t1 = db_notes t @ [n']"
      "db_cards ?t1 = db_cards t @ [c']" "db_decks ?t1 = db_decks t @ ext1"
      "deck_ids_ok ?t1" "dk \<in> set (db_decks ?t1)"
      "deck_name dk = Some (nullish (deckName r) [])"
      "note_deckId n' = Some (deck_id dk)"
      "note_fields n' = Some \<lparr>f_front = Some (nullish (front r) []),
                               f_back = Some (nullish (back_text r) [])\<rparr>"
      "card_noteId c' = Some (note_id n')"
      "due c' = Some now \<and> interval c' = Some 0 \<and> ease c' = Some (5 / 2)
        \<and> reps c' = Some 0 \<and> lapses c' = Some 0 \<and> state c' = Some ''new''"
    using import_line_row[OF Cons.prems(1) r, of now] by (elim exE conjE) blast
  obtain new newc ext where ih: "db_notes ?T = db_notes ?t1 @ new"
      "db_cards ?T = db_cards ?t1 @ newc" "db_decks ?T = db_decks ?t1 @ ext"
      "deck_ids_ok ?T" "map (note_row (db_decks ?T)) new = map norm_row rs"
      "map card_noteId newc = map (\<lambda>n. Some (note_id n)) new"
      "\<forall>c \<in> set newc. due c = Some now \<and> interval c = Some 0 \<and> ease c = Some (5 / 2)
            \<and> reps c = Some 0 \<and> lapses c = Some 0 \<and> state c = Some ''new''"
    using Cons.IH[OF l(4) rs] by (elim exE conjE) blast
  have dkT: "dk \<in> set (db_decks ?T)" using l(5) ih(3) by simp
  have row: "note_row (db_decks ?T) n' = norm_row r"
    unfolding norm_row_def by (rule note_row_imported[OF ih(4) dkT l(6) l(7) l(8)])
  have step: "import_lines now (map row_line (r # rs)) t = ?T" by simp
  have "db_notes ?T = db_notes t @ (n' # new)" using ih(1) l(1) by simp
  moreover have "db_cards ?T = db_cards t @ (c' # newc)" using ih(2) l(2) by simp
  moreover have "db_decks ?T = db_decks t @ (ext1 @ ext)" using ih(3) l(3) by simp
  moreover have "map (note_row (db_decks ?T)) (n' # new) = map norm_row (r # rs)"
    using row ih(5) by simp
  moreover have "map card_noteId (c' # newc) = map (\<lambda>n. Some (note_id n)) (n' # new)"
    using l(9) ih(6) by simp
  moreover have "\<forall>c \<in> set (c' # newc). due c = Some now \<and> interval c = Some 0 \<and> ease c = Some (5 / 2)
            \<and> reps c = Some 0 \<and> lapses c = Some 0 \<and> state c = Some ''new''"
    using l(10) ih(7) by simp
  ultimately show ?case
    unfolding step using ih(4)
    by (intro exI[of _ "n' # new"] exI[of _ "c' # newc"] exI[of _ "ext1 @ ext"] conjI)
qed

lemma norm_note_row: "norm_row (note_row ds n) = note_row ds n"
  by (simp add: norm_row_def note_row_def nullish_def)

text \<open>
  C9, as amended. Let every row that \<open>exportCSV\<close> writes for the store have a deck
  name that is not empty and three cells without a line feed, without white space at
  either end, and not both starting and ending with a double quote. Then
  \<open>importCSV\<close> of the export, into any store whose deck keys are distinct and below
  the next key, succeeds and appends one note for each original note, in order, whose
  \<open>(deckName, front, back)\<close> row equals the original's; it appends one card for each
  of these notes, and every such card has the new-card values, whatever the original
  card's scheduling state was.
\<close>

theorem csv_round_trip:
  assumes "distinct (map deck_id (db_decks t))"
    and "\<forall>d \<in> set (db_decks t). deck_id d < next_deck t"
    and "\<forall>n \<in> set (db_notes s). row_ok (note_row (db_decks s) n)"
  shows "\<exists>t' new newc.
       importCSV now (exportCSV s) t = (Inr (), t')
     \<and> db_notes t' = db_notes t @ new
     \<and> map (note_row (db_decks t')) new = map (note_row (db_decks s)) (db_notes s)
     \<and> db_cards t' = db_cards t @ newc
     \<and> map card_noteId newc = map (\<lambda>n. Some (note_id n)) new
     \<and> (\<forall>c \<in> set newc. due c = Some now \<and> interval c = Some 0 \<and> ease c = Some (5 / 2)
            \<and> reps c = Some 0 \<and> lapses c = Some 0 \<and> state c = Some ''new'')"
proof -
  let ?rs = "map (note_row (db_decks s)) (db_notes s)"
  let ?t' = "import_lines now (map row_line ?rs) t"
  have ok: "deck_ids_ok t" using assms(1,2) by (simp add: deck_ids_ok_def)
  have rows: "\<forall>r \<in> set ?rs. row_ok r" using assms(3) by simp
  have e: "importCSV now (exportCSV s) t = (Inr (), ?t')"
    using assms(3) by (rule importCSV_export)
  obtain new newc where n: "db_notes ?t' = db_notes t @ new"
      "db_cards ?t' = db_cards t @ newc"
      "map (note_row (db_decks ?t')) new = map norm_row ?rs"
      "map card_noteId newc = map (\<lambda>n. Some (note_id n)) new"
      "\<forall>c \<in> set newc. due c = Some now \<and> interval c = Some 0 \<and> ease c = Some (5 / 2)
            \<and> reps c = Some 0 \<and> lapses c = Some 0 \<and> state c = Some ''new''"
    using import_rows[OF ok rows, of now] by (elim exE conjE) blast
  have "map norm_row ?rs = ?rs" by (simp add: norm_note_row)
  then have "map (note_row (db_decks ?t')) new = ?rs" using n(3) by simp
  then show ?thesis
    using e n(1,2,4,5) by (intro exI[of _ ?t'] exI[of _ new] exI[of _ newc] conjI)
qed

theorem csv_round_trip_witness:
  "fst (importCSV 9 (exportCSV csv_store) empty_store) = Inr ()
   \<and> map (note_row (db_decks (snd (importCSV 9 (exportCSV csv_store) empty_store))))
         (db_notes (snd (importCSV 9 (exportCSV csv_store) empty_store)))
       = map (note_row (db_decks csv_store)) (db_notes csv_store)
   \<and> map reps (db_cards csv_store) = [Some 2, Some 0]
   \<and> map reps (db_cards (snd (importCSV 9 (exportCSV csv_store) empty_store))) = [Some 0, Some 0]"
proof -
  have h1: "distinct (map deck_id (db_decks empty_store))"
    and h2: "\<forall>d \<in> set (db_decks empty_store). deck_id d < next_deck empty_store"
    by (simp_all add: empty_store_def)
  have h3: "\<forall>n \<in> set (db_notes csv_store). row_ok (note_row (db_decks csv_store) n)"
    by code_simp
  obtain t' new newc where r: "importCSV 9 (exportCSV csv_store) empty_store = (Inr (), t')"
      "db_notes t' = db_notes empty_store @ new"
      "map (note_row (db_decks t')) new = map (note_row (db_decks csv_store)) (db_notes csv_store)"
    using csv_round_trip[OF h1 h2 h3, of 9] by (elim exE conjE) blast
  have n: "db_notes t' = new" using r(2) by (simp add: empty_store_def)
  have a: "fst (importCSV 9 (exportCSV csv_store) empty_store) = Inr ()" using r(1) by simp
  have b: "map (note_row (db_decks (snd (importCSV 9 (exportCSV csv_store) empty_store))))
         (db_notes (snd (importCSV 9 (exportCSV csv_store) empty_store)))
       = map (note_row (db_decks csv_store)) (db_notes csv_store)"
    using r(1,3) n by simp
  have c: "map reps (db_cards csv_store) = [Some 2, Some 0]"
    by code_simp
  have d: "map reps (db_cards (snd (importCSV 9 (exportCSV csv_store) empty_store))) = [Some 0, Some 0]"
    by code_simp
  show ?thesis using a b c d by (intro conjI)
qed

text \<open>
  C9. The claim: for every store, export followed by import gives back a note with the
  same \<open>(deckName, front, back)\<close> for each original note. The import trims every cell:
  a note whose front is \<open>" q"\<close> comes back with the front \<open>"q"\<close>.
\<close>

theorem csv_round_trip_counterexample:
  "map front (map (note_row (db_decks padded_store)) (db_notes padded_store)) = [Some '' q'']
   \<and> fst (importCSV 2 (exportCSV padded_store) empty_store) = Inr ()
   \<and> map front (map (note_row (db_decks (snd (importCSV 2 (exportCSV padded_store) empty_store))))
         (db_notes (snd (importCSV 2 (exportCSV padded_store) empty_store)))) = [Some ''q'']
   \<and> map (note_row (db_decks (snd (importCSV 2 (exportCSV padded_store) empty_store))))
         (db_notes (snd (importCSV 2 (exportCSV padded_store) empty_store)))
       \<noteq> map (note_row (db_decks padded_store)) (db_notes padded_store)"
  by code_simp

end
